theory Spec2Isabelle
  imports Main
begin

section \<open>Slots: class Variable (crossword.py)\<close>

text \<open>
  The direction of a slot is one of the two class constants \<open>Variable.ACROSS\<close> and
  \<open>Variable.DOWN\<close>. The fields \<open>i\<close>, \<open>j\<close>, \<open>direction\<close>, \<open>length\<close> of the class carry the
  prefix \<open>var_\<close> here. Equality of two slots is equality of the four fields, as in
  \<open>__eq__\<close>, which is equality of the record.
\<close>

datatype direction = ACROSS | DOWN

record Variable =
  var_i :: nat
  var_j :: nat
  var_direction :: direction
  var_length :: nat

text \<open>The derived attribute \<open>self.cells\<close> of \<open>Variable.__init__\<close>.\<close>

definition cells :: "Variable \<Rightarrow> (nat \<times> nat) list" where
  "cells v =
     map (\<lambda>k. (var_i v + (if var_direction v = DOWN then k else 0),
               var_j v + (if var_direction v = ACROSS then k else 0)))
         [0..<var_length v]"

section \<open>The puzzle graph: class Crossword (crossword.py)\<close>

text \<open>
  Python exceptions are values: \<open>ValueError\<close> (\<open>max\<close> of an empty sequence), \<open>KeyError\<close>
  (a missing dictionary key), \<open>TypeError\<close> (unpacking \<open>None\<close>), \<open>IndexError\<close> (a string
  index out of range).

  A Python \<open>set\<close> is a duplicate-free list, in the order in which the set is iterated;
  a set taken from another (a difference, a comprehension) is iterated in the order of the
  set it is taken from. A \<open>dict\<close> with slots as keys is an association list (the domains,
  an assignment) or a map (the overlap table, which is only looked up). Python fixes no
  iteration order for a set: the general theorems below hold for every order of the lists
  they are given, and the concrete examples name the order they use.
\<close>

datatype error = ValueError | KeyError | TypeError | IndexError

record Crossword =
  height :: nat
  width :: nat
  structure_cw :: "bool list list"
  words :: "string list"
  variables :: "Variable list"
  overlaps :: "(Variable \<times> Variable) \<rightharpoonup> (nat \<times> nat) option"

text \<open>
  \<open>self.structure\<close>: row \<open>i\<close> holds, for every column \<open>j\<close> below the width, whether line
  \<open>i\<close> of the structure file has the character \<open>_\<close> at \<open>j\<close>.
\<close>

definition parse_structure :: "string list \<Rightarrow> nat \<Rightarrow> nat \<Rightarrow> bool list list" where
  "parse_structure contents h w =
     map (\<lambda>i. map (\<lambda>j. j < length (contents ! i) \<and> contents ! i ! j = CHR ''_'') [0..<w])
         [0..<h]"

text \<open>
  The two inner loops that measure a run: \<open>length\<close> starts at 1 and grows while the next
  cell (down the column, or along the row) is fillable; the loop breaks at the first cell
  that is not.
\<close>

fun run_down :: "bool list list \<Rightarrow> nat \<Rightarrow> nat list \<Rightarrow> nat \<Rightarrow> nat" where
  "run_down st j [] len = len"
| "run_down st j (k # ks) len = (if st ! k ! j then run_down st j ks (len + 1) else len)"

fun run_across :: "bool list list \<Rightarrow> nat \<Rightarrow> nat list \<Rightarrow> nat \<Rightarrow> nat" where
  "run_across st i [] len = len"
| "run_across st i (k # ks) len = (if st ! i ! k then run_across st i ks (len + 1) else len)"

text \<open>\<open>self.variables.add(v)\<close>: a set keeps one copy of an element.\<close>

definition add_variable :: "Variable \<Rightarrow> Variable list \<Rightarrow> Variable list" where
  "add_variable v vs = (if v \<in> set vs then vs else vs @ [v])"

text \<open>The body of the double loop over the cells \<open>(i, j)\<close>: vertical words, then horizontal.\<close>

definition scan_cell ::
  "bool list list \<Rightarrow> nat \<Rightarrow> nat \<Rightarrow> nat \<Rightarrow> nat \<Rightarrow> Variable list \<Rightarrow> Variable list" where
  "scan_cell st h w i j vs =
     (let vs1 =
            (if st ! i ! j \<and> (i = 0 \<or> \<not> st ! (i - 1) ! j)
             then (let len = run_down st j [i + 1..<h] 1
                   in if len > 1
                      then add_variable
                             \<lparr>var_i = i, var_j = j, var_direction = DOWN, var_length = len\<rparr> vs
                      else vs)
             else vs)
      in (if st ! i ! j \<and> (j = 0 \<or> \<not> st ! i ! (j - 1))
          then (let len = run_across st i [j + 1..<w] 1
                in if len > 1
                   then add_variable
                          \<lparr>var_i = i, var_j = j, var_direction = ACROSS, var_length = len\<rparr> vs1
                   else vs1)
          else vs1))"

definition find_variables :: "bool list list \<Rightarrow> nat \<Rightarrow> nat \<Rightarrow> Variable list" where
  "find_variables st h w =
     fold (\<lambda>i vs. fold (\<lambda>j vs'. scan_cell st h w i j vs') [0..<w] vs) [0..<h] []"

text \<open>
  \<open>list.index\<close>: the position of the first occurrence. Both calls look up a cell drawn
  from the intersection, which is in the list (\<open>index_of_less\<close> below).
\<close>

definition index_of :: "'a list \<Rightarrow> 'a \<Rightarrow> nat" where
  "index_of xs x = length (takeWhile (\<lambda>y. y \<noteq> x) xs)"

text \<open>
  One entry of the overlap table: \<open>None\<close> when the two cell sequences share no cell,
  otherwise the positions of a shared cell in both. \<open>intersection.pop()\<close> takes some
  element of the intersection; here it is the first shared cell along \<open>v1\<close>. Two slots of
  one crossword share at most one cell (\<open>runs_share_one_cell\<close> below), so the choice
  does not show.
\<close>

definition overlap_entry :: "Variable \<Rightarrow> Variable \<Rightarrow> (nat \<times> nat) option" where
  "overlap_entry v1 v2 =
     (case filter (\<lambda>c. c \<in> set (cells v2)) (cells v1) of
        [] \<Rightarrow> None
      | c # _ \<Rightarrow> Some (index_of (cells v1) c, index_of (cells v2) c))"

definition compute_overlaps ::
  "Variable list \<Rightarrow> ((Variable \<times> Variable) \<rightharpoonup> (nat \<times> nat) option)" where
  "compute_overlaps vs =
     fold (\<lambda>v1 m. fold (\<lambda>v2 m'. if v1 = v2 then m' else m'((v1, v2) \<mapsto> overlap_entry v1 v2)) vs m)
          vs Map.empty"

text \<open>
  \<open>Crossword.__init__\<close>, from the lines of the structure file and the lines of the
  upper-cased word file. \<open>max\<close> raises \<open>ValueError\<close> on an empty structure file.
\<close>

definition Crossword_init :: "string list \<Rightarrow> string list \<Rightarrow> error + Crossword" where
  "Crossword_init contents ws =
     (if contents = [] then Inl ValueError
      else (let h = length contents;
                w = Max (set (map length contents));
                st = parse_structure contents h w;
                vs = find_variables st h w
            in Inr \<lparr>height = h, width = w, structure_cw = st, words = remdups ws,
                    variables = vs, overlaps = compute_overlaps vs\<rparr>))"

text \<open>
  \<open>Crossword.neighbors\<close>: the slots other than \<open>var\<close> whose table entry against \<open>var\<close> is
  present and not \<open>None\<close> (\<open>self.overlaps.get((v, var))\<close>).
\<close>

definition neighbors :: "Crossword \<Rightarrow> Variable \<Rightarrow> Variable list" where
  "neighbors cw var =
     filter (\<lambda>v. v \<noteq> var \<and> (case overlaps cw (v, var) of Some (Some ij) \<Rightarrow> True | _ \<Rightarrow> False))
            (variables cw)"

section \<open>Slot discovery: the slots are the maximal runs\<close>

text \<open>
  A cell is fillable when it lies inside the grid and the mask is set there. A slot is a
  maximal run when it has at least one cell, all its cells are fillable, the cell before
  its first cell (above for \<open>DOWN\<close>, to the left for \<open>ACROSS\<close>) is outside the grid or not
  fillable, and so is the cell after its last cell.
\<close>

definition fillable :: "bool list list \<Rightarrow> nat \<Rightarrow> nat \<Rightarrow> nat \<times> nat \<Rightarrow> bool" where
  "fillable st h w c = (fst c < h \<and> snd c < w \<and> st ! fst c ! snd c)"

definition maximal_run :: "bool list list \<Rightarrow> nat \<Rightarrow> nat \<Rightarrow> Variable \<Rightarrow> bool" where
  "maximal_run st h w v =
     (0 < var_length v \<and> (\<forall>c \<in> set (cells v). fillable st h w c) \<and>
      (case var_direction v of
         DOWN \<Rightarrow> (var_i v = 0 \<or> \<not> fillable st h w (var_i v - 1, var_j v)) \<and>
                 \<not> fillable st h w (var_i v + var_length v, var_j v)
       | ACROSS \<Rightarrow> (var_j v = 0 \<or> \<not> fillable st h w (var_i v, var_j v - 1)) \<and>
                   \<not> fillable st h w (var_i v, var_j v + var_length v)))"

lemma run_down_upt:
  "\<exists>n. run_down st j [a..<b] len = len + n \<and> a + n \<le> max a b \<and>
       (\<forall>k. a \<le> k \<and> k < a + n \<longrightarrow> st ! k ! j) \<and> (a + n < b \<longrightarrow> \<not> st ! (a + n) ! j)"
proof (induction "b - a" arbitrary: a len)
  case 0
  then show ?case by (intro exI[of _ 0]) auto
next
  case (Suc d)
  then have ab: "a < b" and d: "d = b - Suc a" by auto
  have upt: "[a..<b] = a # [Suc a..<b]" using ab by (simp add: upt_conv_Cons)
  show ?case
  proof (cases "st ! a ! j")
    case False
    then show ?thesis using upt ab by (intro exI[of _ 0]) auto
  next
    case True
    from Suc.hyps(1)[OF d, of "len + 1"] obtain n where
      n: "run_down st j [Suc a..<b] (len + 1) = len + 1 + n" "Suc a + n \<le> max (Suc a) b"
         "\<forall>k. Suc a \<le> k \<and> k < Suc a + n \<longrightarrow> st ! k ! j" "Suc a + n < b \<longrightarrow> \<not> st ! (Suc a + n) ! j"
      by blast
    have "\<forall>k. a \<le> k \<and> k < a + Suc n \<longrightarrow> st ! k ! j"
    proof (intro allI impI)
      fix k assume k: "a \<le> k \<and> k < a + Suc n"
      show "st ! k ! j"
      proof (cases "k = a")
        case True then show ?thesis using \<open>st ! a ! j\<close> by simp
      next
        case False then show ?thesis using k n(3) by auto
      qed
    qed
    then show ?thesis using n True upt ab by (intro exI[of _ "Suc n"]) auto
  qed
qed

lemma run_across_upt:
  "\<exists>n. run_across st i [a..<b] len = len + n \<and> a + n \<le> max a b \<and>
       (\<forall>k. a \<le> k \<and> k < a + n \<longrightarrow> st ! i ! k) \<and> (a + n < b \<longrightarrow> \<not> st ! i ! (a + n))"
proof (induction "b - a" arbitrary: a len)
  case 0
  then show ?case by (intro exI[of _ 0]) auto
next
  case (Suc d)
  then have ab: "a < b" and d: "d = b - Suc a" by auto
  have upt: "[a..<b] = a # [Suc a..<b]" using ab by (simp add: upt_conv_Cons)
  show ?case
  proof (cases "st ! i ! a")
    case False
    then show ?thesis using upt ab by (intro exI[of _ 0]) auto
  next
    case True
    from Suc.hyps(1)[OF d, of "len + 1"] obtain n where
      n: "run_across st i [Suc a..<b] (len + 1) = len + 1 + n" "Suc a + n \<le> max (Suc a) b"
         "\<forall>k. Suc a \<le> k \<and> k < Suc a + n \<longrightarrow> st ! i ! k" "Suc a + n < b \<longrightarrow> \<not> st ! i ! (Suc a + n)"
      by blast
    have "\<forall>k. a \<le> k \<and> k < a + Suc n \<longrightarrow> st ! i ! k"
    proof (intro allI impI)
      fix k assume k: "a \<le> k \<and> k < a + Suc n"
      show "st ! i ! k"
      proof (cases "k = a")
        case True then show ?thesis using \<open>st ! i ! a\<close> by simp
      next
        case False then show ?thesis using k n(3) by auto
      qed
    qed
    then show ?thesis using n True upt ab by (intro exI[of _ "Suc n"]) auto
  qed
qed

text \<open>The slots that the scan of one cell can add.\<close>

definition cell_slots :: "bool list list \<Rightarrow> nat \<Rightarrow> nat \<Rightarrow> nat \<Rightarrow> nat \<Rightarrow> Variable set" where
  "cell_slots st h w i j =
     (if st ! i ! j \<and> (i = 0 \<or> \<not> st ! (i - 1) ! j) \<and> 1 < run_down st j [i + 1..<h] 1
      then {\<lparr>var_i = i, var_j = j, var_direction = DOWN, var_length = run_down st j [i + 1..<h] 1\<rparr>}
      else {}) \<union>
     (if st ! i ! j \<and> (j = 0 \<or> \<not> st ! i ! (j - 1)) \<and> 1 < run_across st i [j + 1..<w] 1
      then {\<lparr>var_i = i, var_j = j, var_direction = ACROSS, var_length = run_across st i [j + 1..<w] 1\<rparr>}
      else {})"

lemma set_add_variable: "set (add_variable v vs) = insert v (set vs)"
  by (auto simp: add_variable_def)

lemma distinct_add_variable: "distinct vs \<Longrightarrow> distinct (add_variable v vs)"
  by (simp add: add_variable_def)

lemma set_scan_cell: "set (scan_cell st h w i j vs) = set vs \<union> cell_slots st h w i j"
  by (auto simp: scan_cell_def cell_slots_def Let_def set_add_variable)

lemma distinct_scan_cell: "distinct vs \<Longrightarrow> distinct (scan_cell st h w i j vs)"
  by (simp add: scan_cell_def Let_def distinct_add_variable)

lemma set_scan_row:
  "set (fold (\<lambda>j vs'. scan_cell st h w i j vs') js vs) = set vs \<union> (\<Union>j \<in> set js. cell_slots st h w i j)"
  by (induction js arbitrary: vs) (auto simp: set_scan_cell)

lemma distinct_scan_row:
  "distinct vs \<Longrightarrow> distinct (fold (\<lambda>j vs'. scan_cell st h w i j vs') js vs)"
  by (induction js arbitrary: vs) (auto simp: distinct_scan_cell)

lemma set_scan_rows:
  "set (fold (\<lambda>i vs. fold (\<lambda>j vs'. scan_cell st h w i j vs') js vs) is vs0) =
     set vs0 \<union> (\<Union>i \<in> set is. \<Union>j \<in> set js. cell_slots st h w i j)"
  by (induction "is" arbitrary: vs0) (auto simp: set_scan_row)

lemma distinct_scan_rows:
  "distinct vs0 \<Longrightarrow> distinct (fold (\<lambda>i vs. fold (\<lambda>j vs'. scan_cell st h w i j vs') js vs) is vs0)"
  by (induction "is" arbitrary: vs0) (auto simp: distinct_scan_row)

lemma set_find_variables:
  "set (find_variables st h w) = (\<Union>i \<in> {0..<h}. \<Union>j \<in> {0..<w}. cell_slots st h w i j)"
  by (simp add: find_variables_def set_scan_rows)

lemma distinct_find_variables: "distinct (find_variables st h w)"
  by (simp add: find_variables_def distinct_scan_rows)


lemma cells_DOWN:
  "var_direction v = DOWN \<Longrightarrow> cells v = map (\<lambda>k. (var_i v + k, var_j v)) [0..<var_length v]"
  by (simp add: cells_def)

lemma cells_ACROSS:
  "var_direction v = ACROSS \<Longrightarrow> cells v = map (\<lambda>k. (var_i v, var_j v + k)) [0..<var_length v]"
  by (simp add: cells_def)

lemma down_slot_maximal:
  assumes i: "i < h" and j: "j < w"
    and v: "v = \<lparr>var_i = i, var_j = j, var_direction = DOWN, var_length = L\<rparr>"
    and L: "L = run_down st j [i + 1..<h] 1"
    and start: "st ! i ! j" "i = 0 \<or> \<not> st ! (i - 1) ! j"
  shows "maximal_run st h w v"
proof -
  obtain n where n: "run_down st j [i + 1..<h] 1 = 1 + n" "i + 1 + n \<le> max (i + 1) h"
    "\<forall>k. i + 1 \<le> k \<and> k < i + 1 + n \<longrightarrow> st ! k ! j" "i + 1 + n < h \<longrightarrow> \<not> st ! (i + 1 + n) ! j"
    using run_down_upt[of st j "i + 1" h 1] by blast
  have le: "i + 1 + n \<le> h" using n(2) i by simp
  have Ln: "L = 1 + n" using n(1) L by simp
  have all: "\<forall>k < 1 + n. st ! (i + k) ! j"
  proof (intro allI impI)
    fix k assume "k < 1 + n"
    show "st ! (i + k) ! j"
    proof (cases "k = 0")
      case True then show ?thesis using start(1) by simp
    next
      case False
      then have "i + 1 \<le> i + k \<and> i + k < i + 1 + n" using \<open>k < 1 + n\<close> by simp
      then show ?thesis using n(3) by blast
    qed
  qed
  have c: "\<forall>c \<in> set (cells v). fillable st h w c"
    using all le j by (auto simp: v cells_DOWN fillable_def Ln)
  have e: "\<not> fillable st h w (var_i v + var_length v, var_j v)"
    using n(4) le by (auto simp: v fillable_def Ln)
  have b: "var_i v = 0 \<or> \<not> fillable st h w (var_i v - 1, var_j v)"
    using start(2) by (auto simp: v fillable_def)
  show ?thesis using c e b by (simp add: maximal_run_def v Ln)
qed

lemma across_slot_maximal:
  assumes i: "i < h" and j: "j < w"
    and v: "v = \<lparr>var_i = i, var_j = j, var_direction = ACROSS, var_length = L\<rparr>"
    and L: "L = run_across st i [j + 1..<w] 1"
    and start: "st ! i ! j" "j = 0 \<or> \<not> st ! i ! (j - 1)"
  shows "maximal_run st h w v"
proof -
  obtain n where n: "run_across st i [j + 1..<w] 1 = 1 + n" "j + 1 + n \<le> max (j + 1) w"
    "\<forall>k. j + 1 \<le> k \<and> k < j + 1 + n \<longrightarrow> st ! i ! k" "j + 1 + n < w \<longrightarrow> \<not> st ! i ! (j + 1 + n)"
    using run_across_upt[of st i "j + 1" w 1] by blast
  have le: "j + 1 + n \<le> w" using n(2) j by simp
  have Ln: "L = 1 + n" using n(1) L by simp
  have all: "\<forall>k < 1 + n. st ! i ! (j + k)"
  proof (intro allI impI)
    fix k assume "k < 1 + n"
    show "st ! i ! (j + k)"
    proof (cases "k = 0")
      case True then show ?thesis using start(1) by simp
    next
      case False
      then have "j + 1 \<le> j + k \<and> j + k < j + 1 + n" using \<open>k < 1 + n\<close> by simp
      then show ?thesis using n(3) by blast
    qed
  qed
  have c: "\<forall>c \<in> set (cells v). fillable st h w c"
    using all le i by (auto simp: v cells_ACROSS fillable_def Ln)
  have e: "\<not> fillable st h w (var_i v, var_j v + var_length v)"
    using n(4) le by (auto simp: v fillable_def Ln)
  have b: "var_j v = 0 \<or> \<not> fillable st h w (var_i v, var_j v - 1)"
    using start(2) by (auto simp: v fillable_def)
  show ?thesis using c e b by (simp add: maximal_run_def v Ln)
qed

lemma maximal_down_run_length:
  assumes m: "maximal_run st h w v" and d: "var_direction v = DOWN"
  shows "run_down st (var_j v) [var_i v + 1..<h] 1 = var_length v"
proof -
  let ?i = "var_i v" and ?j = "var_j v" and ?l = "var_length v"
  have pos: "0 < ?l" using m by (simp add: maximal_run_def)
  have cells: "\<forall>k < ?l. fillable st h w (?i + k, ?j)"
    using m d by (auto simp: maximal_run_def cells_DOWN)
  have after: "\<not> fillable st h w (?i + ?l, ?j)" using m d by (simp add: maximal_run_def)
  have jw: "?j < w" and ih: "?i < h" using cells pos by (auto simp: fillable_def)
  obtain n where n: "run_down st ?j [?i + 1..<h] 1 = 1 + n" "?i + 1 + n \<le> max (?i + 1) h"
    "\<forall>k. ?i + 1 \<le> k \<and> k < ?i + 1 + n \<longrightarrow> st ! k ! ?j" "?i + 1 + n < h \<longrightarrow> \<not> st ! (?i + 1 + n) ! ?j"
    using run_down_upt[of st ?j "?i + 1" h 1] by blast
  have le: "?i + 1 + n \<le> h" using n(2) ih by simp
  have "\<not> 1 + n < ?l"
  proof
    assume lt: "1 + n < ?l"
    then have f: "fillable st h w (?i + (1 + n), ?j)" using cells by blast
    then have "?i + 1 + n < h" "st ! (?i + 1 + n) ! ?j" by (auto simp: fillable_def add.assoc)
    then show False using n(4) by blast
  qed
  moreover have "\<not> ?l < 1 + n"
  proof
    assume lt: "?l < 1 + n"
    then have "?i + 1 \<le> ?i + ?l \<and> ?i + ?l < ?i + 1 + n" using pos by simp
    then have "st ! (?i + ?l) ! ?j" using n(3) by blast
    moreover have "?i + ?l < h" using lt le by simp
    ultimately show False using after jw by (simp add: fillable_def)
  qed
  ultimately show ?thesis using n(1) by simp
qed

lemma maximal_across_run_length:
  assumes m: "maximal_run st h w v" and d: "var_direction v = ACROSS"
  shows "run_across st (var_i v) [var_j v + 1..<w] 1 = var_length v"
proof -
  let ?i = "var_i v" and ?j = "var_j v" and ?l = "var_length v"
  have pos: "0 < ?l" using m by (simp add: maximal_run_def)
  have cells: "\<forall>k < ?l. fillable st h w (?i, ?j + k)"
    using m d by (auto simp: maximal_run_def cells_ACROSS)
  have after: "\<not> fillable st h w (?i, ?j + ?l)" using m d by (simp add: maximal_run_def)
  have jw: "?j < w" and ih: "?i < h" using cells pos by (auto simp: fillable_def)
  obtain n where n: "run_across st ?i [?j + 1..<w] 1 = 1 + n" "?j + 1 + n \<le> max (?j + 1) w"
    "\<forall>k. ?j + 1 \<le> k \<and> k < ?j + 1 + n \<longrightarrow> st ! ?i ! k" "?j + 1 + n < w \<longrightarrow> \<not> st ! ?i ! (?j + 1 + n)"
    using run_across_upt[of st ?i "?j + 1" w 1] by blast
  have le: "?j + 1 + n \<le> w" using n(2) jw by simp
  have "\<not> 1 + n < ?l"
  proof
    assume lt: "1 + n < ?l"
    then have f: "fillable st h w (?i, ?j + (1 + n))" using cells by blast
    then have "?j + 1 + n < w" "st ! ?i ! (?j + 1 + n)" by (auto simp: fillable_def add.assoc)
    then show False using n(4) by blast
  qed
  moreover have "\<not> ?l < 1 + n"
  proof
    assume lt: "?l < 1 + n"
    then have "?j + 1 \<le> ?j + ?l \<and> ?j + ?l < ?j + 1 + n" using pos by simp
    then have "st ! ?i ! (?j + ?l)" using n(3) by blast
    moreover have "?j + ?l < w" using lt le by simp
    ultimately show False using after ih by (simp add: fillable_def)
  qed
  ultimately show ?thesis using n(1) by simp
qed

lemma maximal_run_start:
  assumes m: "maximal_run st h w v"
  shows "var_i v < h \<and> var_j v < w \<and> st ! var_i v ! var_j v"
proof -
  have "0 < var_length v" using m by (simp add: maximal_run_def)
  then have "(var_i v, var_j v) \<in> set (cells v)"
    by (cases "var_direction v") (auto simp: cells_def image_iff intro!: bexI[of _ 0])
  then have "fillable st h w (var_i v, var_j v)" using m by (auto simp: maximal_run_def)
  then show ?thesis by (simp add: fillable_def)
qed

lemma find_variables_iff:
  "v \<in> set (find_variables st h w) \<longleftrightarrow> maximal_run st h w v \<and> 2 \<le> var_length v"
proof
  assume "v \<in> set (find_variables st h w)"
  then obtain i j where ij: "i < h" "j < w" "v \<in> cell_slots st h w i j"
    by (auto simp: set_find_variables)
  then show "maximal_run st h w v \<and> 2 \<le> var_length v"
    using down_slot_maximal[OF ij(1,2) _ refl] across_slot_maximal[OF ij(1,2) _ refl]
    by (auto simp: cell_slots_def split: if_splits)
next
  assume a: "maximal_run st h w v \<and> 2 \<le> var_length v"
  then have m: "maximal_run st h w v" and l: "2 \<le> var_length v" by simp_all
  note s = maximal_run_start[OF m]
  show "v \<in> set (find_variables st h w)"
  proof (cases "var_direction v")
    case DOWN
    have r: "run_down st (var_j v) [var_i v + 1..<h] 1 = var_length v"
      by (rule maximal_down_run_length[OF m DOWN])
    have b: "var_i v = 0 \<or> \<not> st ! (var_i v - 1) ! var_j v"
      using m DOWN s by (auto simp: maximal_run_def fillable_def)
    have "v = \<lparr>var_i = var_i v, var_j = var_j v, var_direction = DOWN, var_length = var_length v\<rparr>"
      using DOWN by simp
    then have "v \<in> cell_slots st h w (var_i v) (var_j v)"
      using r b s l by (simp add: cell_slots_def)
    moreover have "var_i v \<in> {0..<h}" "var_j v \<in> {0..<w}" using s by auto
    ultimately show ?thesis unfolding set_find_variables by blast
  next
    case ACROSS
    have r: "run_across st (var_i v) [var_j v + 1..<w] 1 = var_length v"
      by (rule maximal_across_run_length[OF m ACROSS])
    have b: "var_j v = 0 \<or> \<not> st ! var_i v ! (var_j v - 1)"
      using m ACROSS s by (auto simp: maximal_run_def fillable_def)
    have "v = \<lparr>var_i = var_i v, var_j = var_j v, var_direction = ACROSS, var_length = var_length v\<rparr>"
      using ACROSS by simp
    then have "v \<in> cell_slots st h w (var_i v) (var_j v)"
      using r b s l by (simp add: cell_slots_def)
    moreover have "var_i v \<in> {0..<h}" "var_j v \<in> {0..<w}" using s by auto
    ultimately show ?thesis unfolding set_find_variables by blast
  qed
qed

section \<open>The overlap table\<close>

lemma index_of_less: "x \<in> set xs \<Longrightarrow> index_of xs x < length xs"
  by (induction xs) (auto simp: index_of_def)

lemma nth_index_of: "x \<in> set xs \<Longrightarrow> xs ! index_of xs x = x"
  by (induction xs) (auto simp: index_of_def)

lemma length_cells [simp]: "length (cells v) = var_length v"
  by (simp add: cells_def)

lemma distinct_cells: "distinct (cells v)"
  by (cases "var_direction v") (auto simp: cells_def distinct_map inj_on_def)

lemma in_cells_DOWN:
  "var_direction v = DOWN \<Longrightarrow>
   c \<in> set (cells v) \<longleftrightarrow> snd c = var_j v \<and> var_i v \<le> fst c \<and> fst c < var_i v + var_length v"
proof -
  assume d: "var_direction v = DOWN"
  show ?thesis
  proof
    assume "c \<in> set (cells v)"
    then show "snd c = var_j v \<and> var_i v \<le> fst c \<and> fst c < var_i v + var_length v"
      using d by (auto simp: cells_DOWN)
  next
    assume a: "snd c = var_j v \<and> var_i v \<le> fst c \<and> fst c < var_i v + var_length v"
    then have "c = (var_i v + (fst c - var_i v), var_j v)" "fst c - var_i v < var_length v"
      by (auto simp: prod_eq_iff)
    then show "c \<in> set (cells v)" using d by (auto simp: cells_DOWN image_iff)
  qed
qed

lemma in_cells_ACROSS:
  "var_direction v = ACROSS \<Longrightarrow>
   c \<in> set (cells v) \<longleftrightarrow> fst c = var_i v \<and> var_j v \<le> snd c \<and> snd c < var_j v + var_length v"
proof -
  assume d: "var_direction v = ACROSS"
  show ?thesis
  proof
    assume "c \<in> set (cells v)"
    then show "fst c = var_i v \<and> var_j v \<le> snd c \<and> snd c < var_j v + var_length v"
      using d by (auto simp: cells_ACROSS)
  next
    assume a: "fst c = var_i v \<and> var_j v \<le> snd c \<and> snd c < var_j v + var_length v"
    then have "c = (var_i v, var_j v + (snd c - var_j v))" "snd c - var_j v < var_length v"
      by (auto simp: prod_eq_iff)
    then show "c \<in> set (cells v)" using d by (auto simp: cells_ACROSS image_iff)
  qed
qed

text \<open>Two maximal runs of one direction that share a cell start at the same cell.\<close>

lemma down_runs_share_start:
  assumes m1: "maximal_run st h w v1" and m2: "maximal_run st h w v2"
    and d1: "var_direction v1 = DOWN" and d2: "var_direction v2 = DOWN"
    and c1: "c \<in> set (cells v1)" and c2: "c \<in> set (cells v2)"
  shows "\<not> var_i v1 < var_i v2"
proof
  assume lt: "var_i v1 < var_i v2"
  have j: "var_j v1 = var_j v2" using c1 c2 d1 d2 by (simp add: in_cells_DOWN)
  have "(var_i v2 - 1, var_j v2) \<in> set (cells v1)"
    using lt c1 c2 d1 d2 j by (auto simp: in_cells_DOWN)
  then have "fillable st h w (var_i v2 - 1, var_j v2)" using m1 by (simp add: maximal_run_def)
  then show False using m2 d2 lt by (simp add: maximal_run_def)
qed

lemma across_runs_share_start:
  assumes m1: "maximal_run st h w v1" and m2: "maximal_run st h w v2"
    and d1: "var_direction v1 = ACROSS" and d2: "var_direction v2 = ACROSS"
    and c1: "c \<in> set (cells v1)" and c2: "c \<in> set (cells v2)"
  shows "\<not> var_j v1 < var_j v2"
proof
  assume lt: "var_j v1 < var_j v2"
  have i: "var_i v1 = var_i v2" using c1 c2 d1 d2 by (simp add: in_cells_ACROSS)
  have "(var_i v2, var_j v2 - 1) \<in> set (cells v1)"
    using lt c1 c2 d1 d2 i by (auto simp: in_cells_ACROSS)
  then have "fillable st h w (var_i v2, var_j v2 - 1)" using m1 by (simp add: maximal_run_def)
  then show False using m2 d2 lt by (simp add: maximal_run_def)
qed

lemma same_direction_runs_equal:
  assumes m1: "maximal_run st h w v1" and m2: "maximal_run st h w v2"
    and d: "var_direction v1 = var_direction v2"
    and c1: "c \<in> set (cells v1)" and c2: "c \<in> set (cells v2)"
  shows "v1 = v2"
proof (cases "var_direction v1")
  case DOWN
  then have d2: "var_direction v2 = DOWN" using d by simp
  have i: "var_i v1 = var_i v2"
    using down_runs_share_start[OF m1 m2 DOWN d2 c1 c2] down_runs_share_start[OF m2 m1 d2 DOWN c2 c1]
    by simp
  have j: "var_j v1 = var_j v2" using c1 c2 DOWN d2 by (simp add: in_cells_DOWN)
  have "var_length v1 = var_length v2"
    using maximal_down_run_length[OF m1 DOWN] maximal_down_run_length[OF m2 d2] i j by simp
  then show ?thesis using i j d by simp
next
  case ACROSS
  then have d2: "var_direction v2 = ACROSS" using d by simp
  have j: "var_j v1 = var_j v2"
    using across_runs_share_start[OF m1 m2 ACROSS d2 c1 c2]
      across_runs_share_start[OF m2 m1 d2 ACROSS c2 c1]
    by simp
  have i: "var_i v1 = var_i v2" using c1 c2 ACROSS d2 by (simp add: in_cells_ACROSS)
  have "var_length v1 = var_length v2"
    using maximal_across_run_length[OF m1 ACROSS] maximal_across_run_length[OF m2 d2] i j by simp
  then show ?thesis using i j d by simp
qed

lemma runs_share_one_cell:
  assumes m1: "maximal_run st h w v1" and m2: "maximal_run st h w v2" and ne: "v1 \<noteq> v2"
    and c: "c \<in> set (cells v1)" "c \<in> set (cells v2)"
    and c': "c' \<in> set (cells v1)" "c' \<in> set (cells v2)"
  shows "c = c'"
proof -
  have d: "var_direction v1 \<noteq> var_direction v2"
    using same_direction_runs_equal[OF m1 m2 _ c] ne by blast
  show ?thesis
  proof (cases "var_direction v1")
    case DOWN
    then have "var_direction v2 = ACROSS" using d by (cases "var_direction v2") simp_all
    then show ?thesis using DOWN c c' by (simp add: in_cells_DOWN in_cells_ACROSS prod_eq_iff)
  next
    case ACROSS
    then have "var_direction v2 = DOWN" using d by (cases "var_direction v2") simp_all
    then show ?thesis using ACROSS c c' by (simp add: in_cells_DOWN in_cells_ACROSS prod_eq_iff)
  qed
qed

lemma distinct_le_one:
  assumes d: "distinct xs" and eq: "\<forall>x \<in> set xs. \<forall>y \<in> set xs. x = y"
  shows "xs = [] \<or> (\<exists>c. xs = [c])"
proof (cases xs)
  case Nil
  then show ?thesis by simp
next
  case (Cons a list)
  have "list = []"
  proof (rule ccontr)
    assume "list \<noteq> []"
    then obtain b where b: "b \<in> set list" by (cases list) auto
    then have "b = a" using eq Cons by simp
    then show False using d Cons b by simp
  qed
  then show ?thesis using Cons by simp
qed

lemma overlap_entry_runs:
  assumes m1: "maximal_run st h w v1" and m2: "maximal_run st h w v2" and ne: "v1 \<noteq> v2"
  shows "(overlap_entry v1 v2 = None \<and> overlap_entry v2 v1 = None) \<or>
         (\<exists>c. c \<in> set (cells v1) \<and> c \<in> set (cells v2) \<and>
              overlap_entry v1 v2 = Some (index_of (cells v1) c, index_of (cells v2) c) \<and>
              overlap_entry v2 v1 = Some (index_of (cells v2) c, index_of (cells v1) c))"
proof -
  define f12 where "f12 = filter (\<lambda>c. c \<in> set (cells v2)) (cells v1)"
  define f21 where "f21 = filter (\<lambda>c. c \<in> set (cells v1)) (cells v2)"
  have s12: "set f12 = set (cells v1) \<inter> set (cells v2)" by (auto simp: f12_def)
  have s21: "set f21 = set (cells v1) \<inter> set (cells v2)" by (auto simp: f21_def)
  have d12: "distinct f12" and d21: "distinct f21"
    by (simp_all add: f12_def f21_def distinct_cells)
  have u: "\<forall>x \<in> set (cells v1) \<inter> set (cells v2). \<forall>y \<in> set (cells v1) \<inter> set (cells v2). x = y"
    using runs_share_one_cell[OF m1 m2 ne] by blast
  have one12: "f12 = [] \<or> (\<exists>c. f12 = [c])"
    by (rule distinct_le_one[OF d12]) (use u s12 in simp)
  have one21: "f21 = [] \<or> (\<exists>c. f21 = [c])"
    by (rule distinct_le_one[OF d21]) (use u s21 in simp)
  have e12: "overlap_entry v1 v2 =
      (case f12 of [] \<Rightarrow> None | c # _ \<Rightarrow> Some (index_of (cells v1) c, index_of (cells v2) c))"
    by (simp add: overlap_entry_def f12_def)
  have e21: "overlap_entry v2 v1 =
      (case f21 of [] \<Rightarrow> None | c # _ \<Rightarrow> Some (index_of (cells v2) c, index_of (cells v1) c))"
    by (simp add: overlap_entry_def f21_def)
  show ?thesis
  proof (cases "f12 = []")
    case True
    then have "set f21 = {}" using s12 s21 by simp
    then have "f21 = []" by simp
    then show ?thesis using True e12 e21 by simp
  next
    case False
    then obtain c where c: "f12 = [c]" using one12 by blast
    then have sc: "set f21 = {c}" using s12 s21 by simp
    then have "f21 \<noteq> []" by auto
    then obtain c' where c': "f21 = [c']" using one21 by blast
    then have "c' = c" using sc by simp
    then have c21: "f21 = [c]" using c' by simp
    have "c \<in> set f12" using c by simp
    then have "c \<in> set (cells v1)" "c \<in> set (cells v2)" using s12 by simp_all
    then show ?thesis using c c21 e12 e21 by (intro disjI2 exI[of _ c]) simp
  qed
qed

lemma overlaps_inner_fold:
  "fold (\<lambda>v2 m'. if v1 = v2 then m' else m'((v1, v2) \<mapsto> overlap_entry v1 v2)) ys m (a, b) =
     (if a = v1 \<and> b \<in> set ys \<and> a \<noteq> b then Some (overlap_entry a b) else m (a, b))"
  by (induction ys arbitrary: m) auto

lemma overlaps_outer_fold:
  "fold (\<lambda>v1 m. fold (\<lambda>v2 m'. if v1 = v2 then m' else m'((v1, v2) \<mapsto> overlap_entry v1 v2)) ys m)
        xs m0 (a, b) =
     (if a \<in> set xs \<and> b \<in> set ys \<and> a \<noteq> b then Some (overlap_entry a b) else m0 (a, b))"
  by (induction xs arbitrary: m0) (auto simp: overlaps_inner_fold)

lemma compute_overlaps_apply:
  "compute_overlaps vs (a, b) =
     (if a \<in> set vs \<and> b \<in> set vs \<and> a \<noteq> b then Some (overlap_entry a b) else None)"
  by (simp add: compute_overlaps_def overlaps_outer_fold)

lemma Crossword_init_fields:
  assumes "Crossword_init contents ws = Inr cw"
  shows "variables cw = find_variables (structure_cw cw) (height cw) (width cw)"
    and "overlaps cw = compute_overlaps (variables cw)"
    and "height cw = length contents"
    and "width cw = Max (set (map length contents))"
    and "structure_cw cw = parse_structure contents (height cw) (width cw)"
    and "words cw = remdups ws"
  using assms by (auto simp: Crossword_init_def Let_def split: if_splits)

lemma variables_maximal:
  assumes "Crossword_init contents ws = Inr cw" and "v \<in> set (variables cw)"
  shows "maximal_run (structure_cw cw) (height cw) (width cw) v" and "2 \<le> var_length v"
  using assms find_variables_iff[of v "structure_cw cw" "height cw" "width cw"]
  by (simp_all add: Crossword_init_fields(1))

lemma distinct_variables:
  assumes "Crossword_init contents ws = Inr cw"
  shows "distinct (variables cw)"
  using assms by (simp add: Crossword_init_fields(1) distinct_find_variables)

lemma overlaps_Some:
  assumes "Crossword_init contents ws = Inr cw"
  shows "overlaps cw (a, b) = Some e \<longleftrightarrow>
         a \<in> set (variables cw) \<and> b \<in> set (variables cw) \<and> a \<noteq> b \<and> e = overlap_entry a b"
  using assms by (auto simp: Crossword_init_fields(2) compute_overlaps_apply)

lemma overlaps_cases:
  assumes init: "Crossword_init contents ws = Inr cw"
    and A: "A \<in> set (variables cw)" and B: "B \<in> set (variables cw)" and ne: "A \<noteq> B"
  shows "(overlaps cw (A, B) = Some None \<and> overlaps cw (B, A) = Some None) \<or>
         (\<exists>i j. overlaps cw (A, B) = Some (Some (i, j)) \<and> overlaps cw (B, A) = Some (Some (j, i)) \<and>
                i < var_length A \<and> j < var_length B \<and> cells A ! i = cells B ! j)"
proof -
  have AB: "overlaps cw (A, B) = Some (overlap_entry A B)"
    and BA: "overlaps cw (B, A) = Some (overlap_entry B A)"
    using A B ne by (simp_all add: overlaps_Some[OF init])
  from overlap_entry_runs[OF variables_maximal(1)[OF init A] variables_maximal(1)[OF init B] ne]
  show ?thesis
  proof
    assume "overlap_entry A B = None \<and> overlap_entry B A = None"
    then show ?thesis using AB BA by simp
  next
    assume "\<exists>c. c \<in> set (cells A) \<and> c \<in> set (cells B) \<and>
              overlap_entry A B = Some (index_of (cells A) c, index_of (cells B) c) \<and>
              overlap_entry B A = Some (index_of (cells B) c, index_of (cells A) c)"
    then obtain c where c: "c \<in> set (cells A)" "c \<in> set (cells B)"
      "overlap_entry A B = Some (index_of (cells A) c, index_of (cells B) c)"
      "overlap_entry B A = Some (index_of (cells B) c, index_of (cells A) c)" by blast
    have "index_of (cells A) c < var_length A" "index_of (cells B) c < var_length B"
      using index_of_less[OF c(1)] index_of_less[OF c(2)] by simp_all
    moreover have "cells A ! index_of (cells A) c = cells B ! index_of (cells B) c"
      using nth_index_of[OF c(1)] nth_index_of[OF c(2)] by simp
    ultimately show ?thesis using AB BA c(3,4) by simp
  qed
qed

text \<open>
  Claim C7. The slots that \<open>Crossword.__init__\<close> discovers are exactly the maximal runs of
  fillable cells of length at least 2, in both directions: a slot starts at a fillable cell
  whose predecessor is outside the grid or not fillable, and stretches to the last fillable
  cell of the run. A run of a single cell is no slot, and no slot is listed twice.
\<close>

theorem variables_are_maximal_runs:
  assumes "Crossword_init contents ws = Inr cw"
  shows "set (variables cw) =
           {v. maximal_run (structure_cw cw) (height cw) (width cw) v \<and> 2 \<le> var_length v} \<and>
         distinct (variables cw)"
  using assms find_variables_iff[of _ "structure_cw cw" "height cw" "width cw"]
  by (auto simp: Crossword_init_fields(1) distinct_find_variables)

theorem variables_are_maximal_runs_witness:
  "\<exists>cw. Crossword_init [''__'', ''#_''] [''AB''] = Inr cw \<and>
        variables cw = [\<lparr>var_i = 0, var_j = 0, var_direction = ACROSS, var_length = 2\<rparr>,
                        \<lparr>var_i = 0, var_j = 1, var_direction = DOWN, var_length = 2\<rparr>] \<and>
        set (variables cw) =
           {v. maximal_run (structure_cw cw) (height cw) (width cw) v \<and> 2 \<le> var_length v} \<and>
        distinct (variables cw)"
proof -
  define cw where "cw = projr (Crossword_init [''__'', ''#_''] [''AB''])"
  have i: "Crossword_init [''__'', ''#_''] [''AB''] = Inr cw"
    unfolding cw_def by (simp add: Crossword_init_def Let_def)
  have v: "variables cw = [\<lparr>var_i = 0, var_j = 0, var_direction = ACROSS, var_length = 2\<rparr>,
                        \<lparr>var_i = 0, var_j = 1, var_direction = DOWN, var_length = 2\<rparr>]"
    unfolding cw_def by code_simp
  show ?thesis using variables_are_maximal_runs[OF i] i v by blast
qed

text \<open>
  Claim C8. For two distinct slots \<open>A\<close> and \<open>B\<close> of a crossword, the table has an entry for
  \<open>(A, B)\<close>; it is \<open>None\<close> exactly when the entry for \<open>(B, A)\<close> is; and when it is the pair
  \<open>(i, j)\<close>, the entry for \<open>(B, A)\<close> is \<open>(j, i)\<close> and cell \<open>i\<close> of \<open>A\<close> is cell \<open>j\<close> of \<open>B\<close>.
\<close>

theorem overlaps_symmetric:
  assumes init: "Crossword_init contents ws = Inr cw"
    and A: "A \<in> set (variables cw)" and B: "B \<in> set (variables cw)" and ne: "A \<noteq> B"
  shows "overlaps cw (A, B) \<noteq> None \<and>
         (overlaps cw (A, B) = Some None \<longleftrightarrow> overlaps cw (B, A) = Some None) \<and>
         (\<forall>i j. overlaps cw (A, B) = Some (Some (i, j)) \<longrightarrow>
                overlaps cw (B, A) = Some (Some (j, i)) \<and>
                i < length (cells A) \<and> j < length (cells B) \<and> cells A ! i = cells B ! j)"
  using overlaps_cases[OF init A B ne] by auto

theorem overlaps_symmetric_witness:
  "\<exists>cw A B. Crossword_init [''__'', ''#_''] [''AB''] = Inr cw \<and>
        A = \<lparr>var_i = 0, var_j = 0, var_direction = ACROSS, var_length = 2\<rparr> \<and>
        B = \<lparr>var_i = 0, var_j = 1, var_direction = DOWN, var_length = 2\<rparr> \<and>
        A \<in> set (variables cw) \<and> B \<in> set (variables cw) \<and> A \<noteq> B \<and>
        overlaps cw (A, B) = Some (Some (1, 0)) \<and> overlaps cw (B, A) = Some (Some (0, 1)) \<and>
        cells A ! 1 = cells B ! 0"
proof -
  define cw where "cw = projr (Crossword_init [''__'', ''#_''] [''AB''])"
  define A where "A = \<lparr>var_i = 0, var_j = 0, var_direction = ACROSS, var_length = 2\<rparr>"
  define B where "B = \<lparr>var_i = 0, var_j = 1, var_direction = DOWN, var_length = 2\<rparr>"
  have i: "Crossword_init [''__'', ''#_''] [''AB''] = Inr cw"
    unfolding cw_def by (simp add: Crossword_init_def Let_def)
  have v: "variables cw = [A, B]"
    unfolding cw_def A_def B_def by code_simp
  have ne: "A \<noteq> B" by (simp add: A_def B_def)
  have o: "overlaps cw (A, B) = Some (Some (1, 0))"
    unfolding cw_def A_def B_def by code_simp
  have A: "A \<in> set (variables cw)" and B: "B \<in> set (variables cw)" using v by simp_all
  from overlaps_symmetric[OF i A B ne] o
  have "overlaps cw (B, A) = Some (Some (0, 1)) \<and> cells A ! 1 = cells B ! 0" by blast
  then show ?thesis using i A B ne o A_def B_def by blast
qed

section \<open>The solver: class CrosswordGenerator (generate.py)\<close>

text \<open>
  \<open>self.domains\<close> maps every slot to its set of candidate words, and an assignment maps
  some slots to their words: both are dictionaries, kept in insertion order. The crossword
  of a generator never changes, so the methods take it as an argument next to the domains
  and return the domains they leave behind. The word lists of a generator are free of
  duplicates (they start as \<open>words cw\<close> and only lose words), so that \<open>len\<close> of a domain is
  the length of its list.
\<close>

type_synonym domains = "(Variable \<times> string list) list"
type_synonym assignment = "(Variable \<times> string) list"

definition CrosswordGenerator_init :: "Crossword \<Rightarrow> domains" where
  "CrosswordGenerator_init cw = map (\<lambda>var. (var, words cw)) (variables cw)"

text \<open>\<open>self.domains[x]\<close>, \<open>self.crossword.overlaps[x, y]\<close> unpacked into two indices, and \<open>word[i]\<close>.\<close>

definition lookup_domain :: "domains \<Rightarrow> Variable \<Rightarrow> error + string list" where
  "lookup_domain doms x = (case map_of doms x of None \<Rightarrow> Inl KeyError | Some ws \<Rightarrow> Inr ws)"

definition lookup_overlap :: "Crossword \<Rightarrow> Variable \<Rightarrow> Variable \<Rightarrow> error + (nat \<times> nat)" where
  "lookup_overlap cw x y =
     (case overlaps cw (x, y) of
        None \<Rightarrow> Inl KeyError
      | Some None \<Rightarrow> Inl TypeError
      | Some (Some ij) \<Rightarrow> Inr ij)"

definition char_at :: "string \<Rightarrow> nat \<Rightarrow> error + char" where
  "char_at word i = (if i < length word then Inr (word ! i) else Inl IndexError)"

text \<open>\<open>self.domains[var].remove(word)\<close>: the set of \<open>var\<close> loses the word, in place.\<close>

definition remove_word :: "Variable \<Rightarrow> string \<Rightarrow> domains \<Rightarrow> domains" where
  "remove_word var word doms =
     map (\<lambda>(v, ws). if v = var then (v, removeAll word ws) else (v, ws)) doms"

text \<open>
  \<open>ensure_node_consistency\<close>: for every slot, every word of a copy of its domain whose
  length is not the slot's is removed from the domain.
\<close>

definition ensure_node_consistency :: "domains \<Rightarrow> domains" where
  "ensure_node_consistency doms =
     fold (\<lambda>(var, ws) ds.
             fold (\<lambda>word ds'. if length word \<noteq> var_length var then remove_word var word ds' else ds')
                  (remdups ws) ds)
          doms doms"

text \<open>
  \<open>revise_domains\<close>. The inner loop over the words of \<open>y\<close> compares the two characters for
  every word (there is no \<open>break\<close>) and clears \<open>remove\<close> on a match; the outer loop runs
  over a copy of the domain of \<open>x\<close> and reads the domain of \<open>y\<close> afresh for every word.
\<close>

fun revise_inner :: "string \<Rightarrow> nat \<Rightarrow> nat \<Rightarrow> string list \<Rightarrow> bool \<Rightarrow> error + bool" where
  "revise_inner x_word i j [] remove = Inr remove"
| "revise_inner x_word i j (y_word # ys) remove =
     (case char_at x_word i of
        Inl e \<Rightarrow> Inl e
      | Inr a \<Rightarrow>
          (case char_at y_word j of
             Inl e \<Rightarrow> Inl e
           | Inr b \<Rightarrow> revise_inner x_word i j ys (if a = b then False else remove)))"

fun revise_loop ::
  "Variable \<Rightarrow> Variable \<Rightarrow> nat \<Rightarrow> nat \<Rightarrow> string list \<Rightarrow> domains \<Rightarrow> bool \<Rightarrow> error + (bool \<times> domains)" where
  "revise_loop x y i j [] doms revised = Inr (revised, doms)"
| "revise_loop x y i j (x_word # xs) doms revised =
     (case lookup_domain doms y of
        Inl e \<Rightarrow> Inl e
      | Inr ys \<Rightarrow>
          (case revise_inner x_word i j ys True of
             Inl e \<Rightarrow> Inl e
           | Inr remove \<Rightarrow>
               if remove then revise_loop x y i j xs (remove_word x x_word doms) True
               else revise_loop x y i j xs doms revised))"

definition revise_domains ::
  "Crossword \<Rightarrow> domains \<Rightarrow> Variable \<Rightarrow> Variable \<Rightarrow> error + (bool \<times> domains)" where
  "revise_domains cw doms x y =
     (case lookup_overlap cw x y of
        Inl e \<Rightarrow> Inl e
      | Inr (i, j) \<Rightarrow>
          (case lookup_domain doms x of
             Inl e \<Rightarrow> Inl e
           | Inr xs \<Rightarrow> revise_loop x y i j (remdups xs) doms False))"

text \<open>
  \<open>apply_ac3\<close>. The worklist is a Python list used as a stack: \<open>arcs.pop()\<close> takes its last
  element and \<open>arcs.append\<close> adds at the end. Here the stack is a list whose head is the
  top, that is, the Python list reversed. \<open>ac3_body\<close> is one pass through the body of the
  \<open>while\<close> loop: it either leaves the loop with the result of \<open>apply_ac3\<close> (\<open>Inl\<close>) or goes
  on with new domains and a new worklist (\<open>Inr\<close>).
\<close>

definition all_arcs :: "Crossword \<Rightarrow> domains \<Rightarrow> (Variable \<times> Variable) list" where
  "all_arcs cw doms = concat (map (\<lambda>x. map (\<lambda>y. (x, y)) (neighbors cw x)) (map fst doms))"

definition ac3_body ::
  "Crossword \<Rightarrow> domains \<Rightarrow> (Variable \<times> Variable) list \<Rightarrow>
     (error + (bool \<times> domains)) + (domains \<times> (Variable \<times> Variable) list)" where
  "ac3_body cw doms arcs =
     (case arcs of
        [] \<Rightarrow> Inl (Inr (True, doms))
      | (x, y) # rest \<Rightarrow>
          (case revise_domains cw doms x y of
             Inl e \<Rightarrow> Inl (Inl e)
           | Inr (revised, doms') \<Rightarrow>
               if revised then
                 (case lookup_domain doms' x of
                    Inl e \<Rightarrow> Inl (Inl e)
                  | Inr xs \<Rightarrow>
                      if xs = [] then Inl (Inr (False, doms'))
                      else Inr (doms', rev (map (\<lambda>z. (z, x)) (filter (\<lambda>z. z \<noteq> y) (neighbors cw x)))
                                       @ rest))
               else Inr (doms', rest)))"

definition domains_size :: "domains \<Rightarrow> nat" where
  "domains_size doms = sum_list (map (\<lambda>(v, ws). length ws) doms)"

text \<open>The domains after the set of \<open>x\<close> has lost the words of \<open>R\<close>.\<close>

definition remove_words :: "Variable \<Rightarrow> string set \<Rightarrow> domains \<Rightarrow> domains" where
  "remove_words x R doms =
     map (\<lambda>(v, ws). if v = x then (v, filter (\<lambda>w. w \<notin> R) ws) else (v, ws)) doms"

lemma remove_word_conv: "remove_word x w doms = remove_words x {w} doms"
proof -
  have "removeAll w ws = filter (\<lambda>u. u \<notin> {w}) ws" for ws :: "string list"
    by (induction ws) auto
  then show ?thesis by (auto simp: remove_word_def remove_words_def)
qed

lemma remove_words_twice:
  "remove_words x R (remove_words x S doms) = remove_words x (R \<union> S) doms"
  by (induction doms) (auto simp: remove_words_def conj_commute)

lemma remove_words_empty [simp]: "remove_words x {} doms = doms"
  by (induction doms) (auto simp: remove_words_def)

lemma keys_remove_words [simp]: "map fst (remove_words x R doms) = map fst doms"
  by (induction doms) (auto simp: remove_words_def)

lemma map_of_remove_words:
  "map_of (remove_words x R doms) v =
     (if v = x then map_option (filter (\<lambda>w. w \<notin> R)) (map_of doms x) else map_of doms v)"
  by (induction doms) (auto simp: remove_words_def)

lemma domains_size_remove_words_le: "domains_size (remove_words x R doms) \<le> domains_size doms"
proof (induction doms)
  case Nil
  then show ?case by (simp add: remove_words_def domains_size_def)
next
  case (Cons p doms)
  obtain v ws where p: "p = (v, ws)" by (cases p)
  have "length (filter (\<lambda>w. w \<notin> R) ws) \<le> length ws" by simp
  then show ?case using Cons unfolding p
    by (simp add: remove_words_def domains_size_def add_mono)
qed

lemma length_filter_less_if:
  assumes "w \<in> set ws" "\<not> P w"
  shows "length (filter P ws) < length ws"
  using assms by (induction ws) (auto simp: less_Suc_eq_le)

lemma domains_size_remove_words_less:
  assumes "map_of doms x = Some xs" and "w \<in> R" and "w \<in> set xs"
  shows "domains_size (remove_words x R doms) < domains_size doms"
  using assms(1)
proof (induction doms)
  case Nil
  then show ?case by simp
next
  case (Cons p doms)
  obtain v ws where p: "p = (v, ws)" by (cases p)
  show ?case
  proof (cases "v = x")
    case True
    then have "ws = xs" using Cons.prems p by simp
    then have "length (filter (\<lambda>w. w \<notin> R) ws) < length ws"
      using assms(2,3) by (intro length_filter_less_if[of w]) simp_all
    moreover have "domains_size (remove_words x R doms) \<le> domains_size doms"
      by (rule domains_size_remove_words_le)
    ultimately show ?thesis using True unfolding p
      by (simp add: remove_words_def domains_size_def)
  next
    case False
    then have "map_of doms x = Some xs" using Cons.prems p by simp
    then have "domains_size (remove_words x R doms) < domains_size doms" by (rule Cons.IH)
    then show ?thesis using False unfolding p
      by (simp add: remove_words_def domains_size_def)
  qed
qed

lemma revise_loop_result:
  "revise_loop x y i j wl doms revised = Inr (r, doms') \<Longrightarrow>
   \<exists>R. R \<subseteq> set wl \<and> doms' = remove_words x R doms \<and> (r \<longleftrightarrow> revised \<or> R \<noteq> {})"
proof (induction wl arbitrary: doms revised)
  case Nil
  then show ?case by (intro exI[of _ "{}"]) auto
next
  case (Cons w wl)
  from Cons.prems obtain ys rm where ys: "lookup_domain doms y = Inr ys"
    and rm: "revise_inner w i j ys True = Inr rm"
    by (auto split: sum.splits)
  show ?case
  proof (cases rm)
    case True
    then have "revise_loop x y i j wl (remove_word x w doms) True = Inr (r, doms')"
      using Cons.prems ys rm by simp
    from Cons.IH[OF this] obtain R where
      R: "R \<subseteq> set wl" "doms' = remove_words x R (remove_word x w doms)" "r" by auto
    have "doms' = remove_words x (R \<union> {w}) doms"
      using R(2) by (simp add: remove_word_conv remove_words_twice)
    then show ?thesis using R(1,3) by (intro exI[of _ "R \<union> {w}"]) auto
  next
    case False
    then have "revise_loop x y i j wl doms revised = Inr (r, doms')"
      using Cons.prems ys rm by simp
    from Cons.IH[OF this] show ?thesis by auto
  qed
qed

lemma revise_domains_result:
  assumes "revise_domains cw doms x y = Inr (revised, doms')"
  shows "\<exists>xs R. map_of doms x = Some xs \<and> R \<subseteq> set xs \<and> doms' = remove_words x R doms \<and>
                (revised \<longleftrightarrow> R \<noteq> {})"
proof -
  from assms obtain i j xs where xs: "lookup_domain doms x = Inr xs"
    and l: "revise_loop x y i j (remdups xs) doms False = Inr (revised, doms')"
    by (auto simp: revise_domains_def split: sum.splits prod.splits)
  have m: "map_of doms x = Some xs" using xs by (auto simp: lookup_domain_def split: option.splits)
  from revise_loop_result[OF l] m show ?thesis by auto
qed

lemma revise_domains_shrinks:
  assumes "revise_domains cw doms x y = Inr (revised, doms')"
  shows "(revised \<and> domains_size doms' < domains_size doms) \<or> (\<not> revised \<and> doms' = doms)"
proof -
  from revise_domains_result[OF assms] obtain xs R where
    r: "map_of doms x = Some xs" "R \<subseteq> set xs" "doms' = remove_words x R doms" "revised \<longleftrightarrow> R \<noteq> {}"
    by blast
  show ?thesis
  proof (cases "R = {}")
    case True
    then show ?thesis using r by simp
  next
    case False
    then obtain w where w: "w \<in> R" by blast
    then have "w \<in> set xs" using r(2) by blast
    from domains_size_remove_words_less[OF r(1) w this] show ?thesis using r False by simp
  qed
qed

lemma ac3_body_decreases:
  assumes "ac3_body cw doms arcs = Inr (doms', arcs')"
  shows "domains_size doms' < domains_size doms \<or> (doms' = doms \<and> length arcs' < length arcs)"
proof -
  from assms obtain x y rest where arcs: "arcs = (x, y) # rest"
    by (cases arcs) (auto simp: ac3_body_def)
  from assms arcs obtain revised d where rv: "revise_domains cw doms x y = Inr (revised, d)"
    by (auto simp: ac3_body_def split: sum.splits)
  show ?thesis
  proof (cases revised)
    case True
    then have "d = doms'" using assms arcs rv
      by (auto simp: ac3_body_def split: sum.splits if_splits)
    then show ?thesis using revise_domains_shrinks[OF rv] True by simp
  next
    case False
    then have "d = doms'" "arcs' = rest" using assms arcs rv
      by (auto simp: ac3_body_def split: sum.splits if_splits)
    then show ?thesis using revise_domains_shrinks[OF rv] False arcs by simp
  qed
qed

function ac3_loop ::
  "Crossword \<Rightarrow> domains \<Rightarrow> (Variable \<times> Variable) list \<Rightarrow> error + (bool \<times> domains)" where
  "ac3_loop cw doms arcs =
     (case ac3_body cw doms arcs of
        Inl result \<Rightarrow> result
      | Inr (doms', arcs') \<Rightarrow> ac3_loop cw doms' arcs')"
  by pat_completeness auto
termination
proof (relation "inv_image (less_than <*lex*> less_than)
                   (\<lambda>(cw, doms, arcs). (domains_size doms, length arcs))")
  show "wf (inv_image (less_than <*lex*> less_than)
              (\<lambda>(cw, doms, arcs). (domains_size doms, length arcs)))"
    by (intro wf_inv_image wf_lex_prod wf_less_than)
next
  fix cw doms arcs x2 x y
  assume "ac3_body cw doms arcs = Inr x2" "(x, y) = x2"
  then have "ac3_body cw doms arcs = Inr (x, y)" by simp
  from ac3_body_decreases[OF this]
  show "((cw, x, y), cw, doms, arcs)
          \<in> inv_image (less_than <*lex*> less_than)
              (\<lambda>(cw, doms, arcs). (domains_size doms, length arcs))"
    by auto
qed

declare ac3_loop.simps [simp del]

definition apply_ac3 ::
  "Crossword \<Rightarrow> domains \<Rightarrow> (Variable \<times> Variable) list option \<Rightarrow> error + (bool \<times> domains)" where
  "apply_ac3 cw doms arcs =
     ac3_loop cw doms (rev (case arcs of None \<Rightarrow> all_arcs cw doms | Some given \<Rightarrow> given))"

text \<open>\<open>is_assignment_complete\<close> compares the two sizes.\<close>

definition is_assignment_complete :: "Crossword \<Rightarrow> assignment \<Rightarrow> bool" where
  "is_assignment_complete cw a = (length (variables cw) = length a)"

text \<open>
  \<open>is_consistent\<close>: the loop over the assigned slots, with the words used so far, and for
  each slot the loop over its neighbours; only the neighbours that are assigned are looked
  at.
\<close>

fun check_neighbors ::
  "Crossword \<Rightarrow> assignment \<Rightarrow> Variable \<Rightarrow> string \<Rightarrow> Variable list \<Rightarrow> error + bool" where
  "check_neighbors cw a var word [] = Inr True"
| "check_neighbors cw a var word (neighbor # rest) =
     (case map_of a neighbor of
        None \<Rightarrow> check_neighbors cw a var word rest
      | Some nword \<Rightarrow>
          (case lookup_overlap cw var neighbor of
             Inl e \<Rightarrow> Inl e
           | Inr (i, j) \<Rightarrow>
               (case char_at word i of
                  Inl e \<Rightarrow> Inl e
                | Inr c1 \<Rightarrow>
                    (case char_at nword j of
                       Inl e \<Rightarrow> Inl e
                     | Inr c2 \<Rightarrow>
                         if c1 \<noteq> c2 then Inr False
                         else check_neighbors cw a var word rest))))"

fun consistent_loop ::
  "Crossword \<Rightarrow> assignment \<Rightarrow> (Variable \<times> string) list \<Rightarrow> string list \<Rightarrow> error + bool" where
  "consistent_loop cw a [] used_words = Inr True"
| "consistent_loop cw a ((var, word) # rest) used_words =
     (if word \<in> set used_words then Inr False
      else if length word \<noteq> var_length var then Inr False
      else (case check_neighbors cw a var word (neighbors cw var) of
              Inl e \<Rightarrow> Inl e
            | Inr ok \<Rightarrow>
                if ok then consistent_loop cw a rest (word # used_words) else Inr False))"

definition is_consistent :: "Crossword \<Rightarrow> assignment \<Rightarrow> error + bool" where
  "is_consistent cw a = consistent_loop cw a a []"

text \<open>\<open>self.crossword.variables - set(assignment)\<close> and \<open>neighbors(var) - set(assignment)\<close>.\<close>

definition unassigned :: "assignment \<Rightarrow> Variable list \<Rightarrow> Variable list" where
  "unassigned a vs = filter (\<lambda>v. v \<notin> set (map fst a)) vs"

text \<open>
  \<open>order_values\<close>: the dictionary \<open>n\<close> holds, for every value of the domain of \<open>var\<close>, the
  number of unassigned neighbours whose domain contains that value; \<open>sorted\<close> is stable.
\<close>

fun count_neighbors :: "domains \<Rightarrow> string \<Rightarrow> Variable list \<Rightarrow> nat \<Rightarrow> error + nat" where
  "count_neighbors doms val [] n = Inr n"
| "count_neighbors doms val (neighbor # rest) n =
     (case lookup_domain doms neighbor of
        Inl e \<Rightarrow> Inl e
      | Inr ws \<Rightarrow> count_neighbors doms val rest (if val \<in> set ws then n + 1 else n))"

fun order_counts ::
  "domains \<Rightarrow> Variable list \<Rightarrow> string list \<Rightarrow> error + (string \<times> nat) list" where
  "order_counts doms nbs [] = Inr []"
| "order_counts doms nbs (val # vals) =
     (case count_neighbors doms val nbs 0 of
        Inl e \<Rightarrow> Inl e
      | Inr c \<Rightarrow>
          (case order_counts doms nbs vals of
             Inl e \<Rightarrow> Inl e
           | Inr n \<Rightarrow> Inr ((val, c) # n)))"

definition order_values ::
  "Crossword \<Rightarrow> domains \<Rightarrow> Variable \<Rightarrow> assignment \<Rightarrow> error + string list" where
  "order_values cw doms var a =
     (case lookup_domain doms var of
        Inl e \<Rightarrow> Inl e
      | Inr vals \<Rightarrow>
          (case order_counts doms (unassigned a (neighbors cw var)) vals of
             Inl e \<Rightarrow> Inl e
           | Inr n \<Rightarrow> Inr (map fst (sort_key snd n))))"

text \<open>
  \<open>select_variable\<close>: the loop over the unassigned slots with the variable \<open>best\<close>, which
  is \<open>None\<close> until the first slot is seen.
\<close>

fun select_loop ::
  "Crossword \<Rightarrow> domains \<Rightarrow> Variable list \<Rightarrow> Variable option \<Rightarrow> error + Variable option" where
  "select_loop cw doms [] best = Inr best"
| "select_loop cw doms (var # rest) None = select_loop cw doms rest (Some var)"
| "select_loop cw doms (var # rest) (Some best) =
     (case lookup_domain doms var of
        Inl e \<Rightarrow> Inl e
      | Inr dv \<Rightarrow>
          (case lookup_domain doms best of
             Inl e \<Rightarrow> Inl e
           | Inr db \<Rightarrow>
               if length dv < length db \<or>
                  length (neighbors cw var) > length (neighbors cw best)
               then select_loop cw doms rest (Some var)
               else select_loop cw doms rest (Some best)))"

definition select_variable ::
  "Crossword \<Rightarrow> domains \<Rightarrow> assignment \<Rightarrow> error + Variable option" where
  "select_variable cw doms a = select_loop cw doms (unassigned a (variables cw)) None"

lemma select_loop_member:
  "select_loop cw doms vs best = Inr (Some v) \<Longrightarrow> v \<in> set vs \<or> best = Some v"
proof (induction cw doms vs best rule: select_loop.induct)
  case (1 cw doms best)
  then show ?case by simp
next
  case (2 cw doms var rest)
  then show ?case by auto
next
  case (3 cw doms var rest best)
  then show ?case by (auto split: sum.splits if_splits)
qed

lemma select_variable_unassigned:
  "select_variable cw doms a = Inr (Some v) \<Longrightarrow> v \<in> set (unassigned a (variables cw))"
  using select_loop_member[of cw doms "unassigned a (variables cw)" None v]
  by (simp add: select_variable_def)

lemma unassigned_append:
  "unassigned (a @ [(var, val)]) vs = filter (\<lambda>v. v \<noteq> var) (unassigned a vs)"
  by (induction vs) (auto simp: unassigned_def)

lemma length_unassigned_append_le:
  "length (unassigned (a @ [(var, val)]) vs) \<le> length (unassigned a vs)"
  by (simp add: unassigned_append)

lemma length_unassigned_append_less:
  "var \<in> set (unassigned a vs) \<Longrightarrow>
   length (unassigned (a @ [(var, val)]) vs) < length (unassigned a vs)"
  unfolding unassigned_append by (rule length_filter_less_if[of var]) simp_all

text \<open>
  \<open>perform_backtracking\<close>, with its \<open>for\<close> loop over the domain of the selected slot as
  \<open>try_values\<close>. The assignment is a dictionary changed in place: \<open>assignment[var] = value\<close>
  adds an entry for a slot that is unassigned, and \<open>assignment.pop(var)\<close> takes it away
  again after a failed branch, so every pass of the loop starts from the assignment of the
  call. \<open>self.domains[None]\<close> raises \<open>KeyError\<close>.
\<close>

function perform_backtracking ::
    "Crossword \<Rightarrow> domains \<Rightarrow> assignment \<Rightarrow> error + assignment option"
  and try_values ::
    "Crossword \<Rightarrow> domains \<Rightarrow> Variable \<Rightarrow> string list \<Rightarrow> assignment \<Rightarrow> error + assignment option"
  where
  "perform_backtracking cw doms a =
     (if is_assignment_complete cw a then Inr (Some a)
      else (case select_variable cw doms a of
              Inl e \<Rightarrow> Inl e
            | Inr None \<Rightarrow> Inl KeyError
            | Inr (Some var) \<Rightarrow>
                (case lookup_domain doms var of
                   Inl e \<Rightarrow> Inl e
                 | Inr vals \<Rightarrow> try_values cw doms var vals a)))"
| "try_values cw doms var [] a = Inr None"
| "try_values cw doms var (val # rest) a =
     (case is_consistent cw (a @ [(var, val)]) of
        Inl e \<Rightarrow> Inl e
      | Inr ok \<Rightarrow>
          if ok then
            (case perform_backtracking cw doms (a @ [(var, val)]) of
               Inl e \<Rightarrow> Inl e
             | Inr (Some result) \<Rightarrow> Inr (Some result)
             | Inr None \<Rightarrow> try_values cw doms var rest a)
          else try_values cw doms var rest a)"
  by pat_completeness auto
termination
proof (relation "inv_image (less_than <*lex*> less_than <*lex*> less_than)
     (\<lambda>p. case p of
        Inl (cw, doms, a) \<Rightarrow> (length (unassigned a (variables cw)), 1, 0)
      | Inr (cw, doms, var, vals, a) \<Rightarrow>
          (length (unassigned a (variables cw)),
           if var \<in> set (unassigned a (variables cw)) then 0 else 2,
           length vals))", goal_cases)
  case 1
  show ?case by (intro wf_inv_image wf_lex_prod wf_less_than)
next
  case (2 cw doms a x2 x2a x2b)
  then show ?case using select_variable_unassigned[of cw doms a x2a] by simp
next
  case (3 cw doms var val rest a x2)
  then show ?case
    using length_unassigned_append_le[of a var val "variables cw"]
      length_unassigned_append_less[of var a "variables cw" val]
    by (auto simp: le_less)
next
  case (4 cw doms var val rest a x2 x2a)
  then show ?case by simp
next
  case (5 cw doms var val rest a x2)
  then show ?case by simp
qed

declare perform_backtracking.simps [simp del]

text \<open>
  \<open>find_solution\<close>: the value that \<open>apply_ac3\<close> returns is dropped; the search runs on the
  domains that it leaves.
\<close>

definition find_solution :: "Crossword \<Rightarrow> domains \<Rightarrow> error + assignment option" where
  "find_solution cw doms =
     (case apply_ac3 cw (ensure_node_consistency doms) None of
        Inl e \<Rightarrow> Inl e
      | Inr (ok, doms') \<Rightarrow> perform_backtracking cw doms' [])"

text \<open>
  The words that the loop of one call of \<open>perform_backtracking\<close> assigns to the selected
  slot (the executions of \<open>assignment[var] = value\<close> of that call), in order.
\<close>

fun tried_values ::
  "Crossword \<Rightarrow> domains \<Rightarrow> Variable \<Rightarrow> string list \<Rightarrow> assignment \<Rightarrow> string list" where
  "tried_values cw doms var [] a = []"
| "tried_values cw doms var (val # rest) a =
     val # (case is_consistent cw (a @ [(var, val)]) of
              Inl e \<Rightarrow> []
            | Inr ok \<Rightarrow>
                if ok then
                  (case perform_backtracking cw doms (a @ [(var, val)]) of
                     Inr None \<Rightarrow> tried_values cw doms var rest a
                   | _ \<Rightarrow> [])
                else tried_values cw doms var rest a)"

definition backtracking_tries :: "Crossword \<Rightarrow> domains \<Rightarrow> assignment \<Rightarrow> string list" where
  "backtracking_tries cw doms a =
     (if is_assignment_complete cw a then []
      else (case select_variable cw doms a of
              Inr (Some var) \<Rightarrow>
                (case lookup_domain doms var of
                   Inr vals \<Rightarrow> tried_values cw doms var vals a
                 | Inl e \<Rightarrow> [])
            | _ \<Rightarrow> []))"

lemma ac3_body_Cons:
  assumes "revise_domains cw doms x y = Inr (revised, d)"
  shows "ac3_body cw doms ((x, y) # rest) =
     (if revised then
        (case lookup_domain d x of
           Inl e \<Rightarrow> Inl (Inl e)
         | Inr xs \<Rightarrow>
             if xs = [] then Inl (Inr (False, d))
             else Inr (d, rev (map (\<lambda>z. (z, x)) (filter (\<lambda>z. z \<noteq> y) (neighbors cw x))) @ rest))
      else Inr (d, rest))"
  using assms by (simp add: ac3_body_def)

lemma ac3_body_Cons_error:
  assumes "revise_domains cw doms x y = Inl e"
  shows "ac3_body cw doms ((x, y) # rest) = Inl (Inl e)"
  using assms by (simp add: ac3_body_def)

lemma ac3_body_Inr_cases:
  assumes "ac3_body cw doms arcs = Inr (d1, arcs1)"
  obtains x y rest where "arcs = (x, y) # rest" "revise_domains cw doms x y = Inr (False, d1)"
      "d1 = doms" "arcs1 = rest"
  | x y rest xs where "arcs = (x, y) # rest" "revise_domains cw doms x y = Inr (True, d1)"
      "lookup_domain d1 x = Inr xs" "xs \<noteq> []"
      "arcs1 = rev (map (\<lambda>z. (z, x)) (filter (\<lambda>z. z \<noteq> y) (neighbors cw x))) @ rest"
proof -
  from assms obtain x y rest where arcs: "arcs = (x, y) # rest"
    by (cases arcs) (auto simp: ac3_body_def)
  have "\<exists>revised d. revise_domains cw doms x y = Inr (revised, d)"
  proof (cases "revise_domains cw doms x y")
    case (Inl e)
    then show ?thesis using assms arcs by (simp add: ac3_body_Cons_error)
  next
    case (Inr p)
    then show ?thesis by (cases p) simp
  qed
  then obtain revised d where rv: "revise_domains cw doms x y = Inr (revised, d)" by blast
  note body = assms[unfolded arcs ac3_body_Cons[OF rv]]
  show ?thesis
  proof (cases revised)
    case False
    then have e: "d = d1" "arcs1 = rest" using body by simp_all
    have d: "d = doms" using revise_domains_shrinks[OF rv] False by simp
    have 1: "revise_domains cw doms x y = Inr (False, d1)" using rv False e(1) by simp
    have 2: "d1 = doms" using e(1) d by simp
    show ?thesis by (rule that(1)[OF arcs 1 2 e(2)])
  next
    case True
    show ?thesis
    proof (cases "lookup_domain d x")
      case (Inl e)
      then show ?thesis using body True by simp
    next
      case (Inr xs)
      then have e: "xs \<noteq> []" "d = d1"
        "arcs1 = rev (map (\<lambda>z. (z, x)) (filter (\<lambda>z. z \<noteq> y) (neighbors cw x))) @ rest"
        using body True by (simp_all split: if_splits)
      have 1: "revise_domains cw doms x y = Inr (True, d1)" using rv True e(2) by simp
      have 2: "lookup_domain d1 x = Inr xs" using Inr e(2) by simp
      show ?thesis by (rule that(2)[OF arcs 1 2 e(1) e(3)])
    qed
  qed
qed

lemma ac3_body_Inl_cases:
  assumes "ac3_body cw doms arcs = Inl (Inr (ok, d1))"
  obtains "arcs = []" "ok" "d1 = doms"
  | x y rest where "arcs = (x, y) # rest" "revise_domains cw doms x y = Inr (True, d1)"
      "lookup_domain d1 x = Inr []" "\<not> ok"
proof (cases arcs)
  case Nil
  then show ?thesis using assms that(1) by (simp add: ac3_body_def)
next
  case (Cons p rest)
  obtain x y where p: "p = (x, y)" by (cases p)
  have arcs: "arcs = (x, y) # rest" using Cons p by simp
  have "\<exists>revised d. revise_domains cw doms x y = Inr (revised, d)"
  proof (cases "revise_domains cw doms x y")
    case (Inl e)
    then show ?thesis using assms arcs by (simp add: ac3_body_Cons_error)
  next
    case (Inr q)
    then show ?thesis by (cases q) simp
  qed
  then obtain revised d where rv: "revise_domains cw doms x y = Inr (revised, d)" by blast
  note body = assms[unfolded arcs ac3_body_Cons[OF rv]]
  have r: "revised" using body by (cases revised) simp_all
  show ?thesis
  proof (cases "lookup_domain d x")
    case (Inl e)
    then show ?thesis using body r by simp
  next
    case (Inr xs)
    then have e: "xs = []" "d = d1" "\<not> ok" using body r by (simp_all split: if_splits)
    have 1: "revise_domains cw doms x y = Inr (True, d1)" using rv r e(2) by simp
    have 2: "lookup_domain d1 x = Inr []" using Inr e(1,2) by simp
    show ?thesis by (rule that(2)[OF arcs 1 2 e(3)])
  qed
qed

lemma lookup_domain_Inr: "lookup_domain doms x = Inr ws \<longleftrightarrow> map_of doms x = Some ws"
  by (auto simp: lookup_domain_def split: option.splits)

lemma ac3_body_nonempty_iff:
  assumes "ac3_body cw doms arcs = Inr (d1, arcs1)"
  shows "(\<exists>ws. map_of doms v = Some ws \<and> ws \<noteq> []) \<longleftrightarrow> (\<exists>ws. map_of d1 v = Some ws \<and> ws \<noteq> [])"
  using assms
proof (cases rule: ac3_body_Inr_cases)
  case (1 x y rest)
  then show ?thesis by simp
next
  case (2 x y rest xs)
  from revise_domains_result[OF 2(2)] obtain xs0 R where
    r: "map_of doms x = Some xs0" "d1 = remove_words x R doms" by blast
  have x1: "map_of d1 x = Some xs" using 2(3) by (simp add: lookup_domain_Inr)
  show ?thesis
  proof (cases "v = x")
    case True
    have "xs = filter (\<lambda>w. w \<notin> R) xs0" using x1 r by (simp add: map_of_remove_words)
    then have "xs0 \<noteq> []" using 2(4) by auto
    then show ?thesis using True x1 r(1) 2(4) by simp
  next
    case False
    then show ?thesis using r(2) by (simp add: map_of_remove_words)
  qed
qed

lemma ac3_loop_ok_iff:
  "ac3_loop cw doms arcs = Inr (ok, doms') \<Longrightarrow>
   ok \<longleftrightarrow> (\<forall>x ws. map_of doms x = Some ws \<and> ws \<noteq> [] \<longrightarrow> map_of doms' x \<noteq> Some [])"
proof (induction cw doms arcs arbitrary: ok doms' rule: ac3_loop.induct)
  case (1 cw doms arcs)
  show ?case
  proof (cases "ac3_body cw doms arcs")
    case (Inl result)
    then have b: "ac3_body cw doms arcs = Inl (Inr (ok, doms'))"
      using "1.prems" by (simp add: ac3_loop.simps)
    from b show ?thesis
    proof (cases rule: ac3_body_Inl_cases)
      case 1
      then show ?thesis by auto
    next
      case (2 x y rest)
      from revise_domains_result[OF 2(2)] obtain xs0 R where
        r: "map_of doms x = Some xs0" "R \<subseteq> set xs0" "R \<noteq> {}" by blast
      then have "xs0 \<noteq> []" by auto
      moreover have "map_of doms' x = Some []" using 2(3) by (simp add: lookup_domain_Inr)
      ultimately show ?thesis using r(1) 2(4) by blast
    qed
  next
    case (Inr next_state)
    obtain d1 arcs1 where n: "next_state = (d1, arcs1)" by (cases next_state)
    have b: "ac3_body cw doms arcs = Inr (d1, arcs1)" using Inr n by simp
    have l: "ac3_loop cw d1 arcs1 = Inr (ok, doms')"
      using "1.prems" b by (simp add: ac3_loop.simps)
    have ih: "ok \<longleftrightarrow> (\<forall>x ws. map_of d1 x = Some ws \<and> ws \<noteq> [] \<longrightarrow> map_of doms' x \<noteq> Some [])"
      using "1.IH"[OF Inr n[symmetric] l] .
    have "(\<forall>x ws. map_of d1 x = Some ws \<and> ws \<noteq> [] \<longrightarrow> map_of doms' x \<noteq> Some []) \<longleftrightarrow>
          (\<forall>x ws. map_of doms x = Some ws \<and> ws \<noteq> [] \<longrightarrow> map_of doms' x \<noteq> Some [])"
      using ac3_body_nonempty_iff[OF b] by metis
    then show ?thesis using ih by simp
  qed
qed

lemma wf_ac3_body:
  "wf {((doms', arcs'), (doms, arcs)). ac3_body cw doms arcs = Inr (doms', arcs')}"
proof (rule wf_subset)
  show "wf (inv_image (less_than <*lex*> less_than)
              (\<lambda>(doms, arcs). (domains_size doms, length (arcs :: (Variable \<times> Variable) list))))"
    by (intro wf_inv_image wf_lex_prod wf_less_than)
  show "{((doms', arcs'), (doms, arcs)). ac3_body cw doms arcs = Inr (doms', arcs')}
        \<subseteq> inv_image (less_than <*lex*> less_than)
              (\<lambda>(doms, arcs). (domains_size doms, length arcs))"
  proof (clarify)
    fix d' a' d a
    assume "ac3_body cw d a = Inr (d', a')"
    from ac3_body_decreases[OF this]
    show "((d', a'), (d, a)) \<in> inv_image (less_than <*lex*> less_than)
              (\<lambda>(doms, arcs). (domains_size doms, length arcs))"
      by auto
  qed
qed

lemma ac3_body_not_revised:
  assumes "revise_domains cw doms x y = Inr (False, doms')"
  shows "ac3_body cw doms ((x, y) # rest) = Inr (doms, rest)"
proof -
  have "doms' = doms" using revise_domains_shrinks[OF assms] by simp
  then have "revise_domains cw doms x y = Inr (False, doms)" using assms by simp
  from ac3_body_Cons[OF this] show ?thesis by simp
qed

text \<open>
  Claim C9. \<open>apply_ac3\<close> terminates on every input: the passes of its loop form a
  well-founded relation, because a revision either removes a word, and then the total
  size of the domains drops, or removes nothing, leaves the domains as they were and adds
  no arc, and then the worklist is one arc shorter. It returns \<open>True\<close> exactly when no
  domain that had a word at the start is empty at the end.
\<close>

theorem apply_ac3_terminates:
  "wf {((doms', arcs'), (doms, arcs)). ac3_body cw doms arcs = Inr (doms', arcs')} \<and>
   (\<forall>doms x y revised doms'.
      revise_domains cw doms x y = Inr (revised, doms') \<longrightarrow>
        (revised \<and> domains_size doms' < domains_size doms) \<or> (\<not> revised \<and> doms' = doms)) \<and>
   (\<forall>doms x y rest doms'.
      revise_domains cw doms x y = Inr (False, doms') \<longrightarrow>
        ac3_body cw doms ((x, y) # rest) = Inr (doms, rest)) \<and>
   (\<forall>doms arcs ok doms'.
      apply_ac3 cw doms arcs = Inr (ok, doms') \<longrightarrow>
        (ok \<longleftrightarrow> (\<forall>x ws. map_of doms x = Some ws \<and> ws \<noteq> [] \<longrightarrow> map_of doms' x \<noteq> Some [])))"
proof (intro conjI allI impI)
  show "wf {((doms', arcs'), (doms, arcs)). ac3_body cw doms arcs = Inr (doms', arcs')}"
    by (rule wf_ac3_body)
next
  fix doms x y revised doms'
  assume "revise_domains cw doms x y = Inr (revised, doms')"
  then show "(revised \<and> domains_size doms' < domains_size doms) \<or> (\<not> revised \<and> doms' = doms)"
    by (rule revise_domains_shrinks)
next
  fix doms x y rest doms'
  assume "revise_domains cw doms x y = Inr (False, doms')"
  then show "ac3_body cw doms ((x, y) # rest) = Inr (doms, rest)"
    by (rule ac3_body_not_revised)
next
  fix doms arcs ok doms'
  assume "apply_ac3 cw doms arcs = Inr (ok, doms')"
  then show "ok \<longleftrightarrow> (\<forall>x ws. map_of doms x = Some ws \<and> ws \<noteq> [] \<longrightarrow> map_of doms' x \<noteq> Some [])"
    unfolding apply_ac3_def by (rule ac3_loop_ok_iff)
qed

section \<open>Arc consistency\<close>

text \<open>
  The domain of a slot as a list (empty for a slot without an entry); two words match at
  an overlap \<open>(i, j)\<close> when both indices are inside the words and the characters agree; a
  word of \<open>x\<close> is supported when some word of the other domain matches it.
\<close>

definition domain_of :: "domains \<Rightarrow> Variable \<Rightarrow> string list" where
  "domain_of doms x = (case map_of doms x of None \<Rightarrow> [] | Some ws \<Rightarrow> ws)"

definition matches :: "nat \<Rightarrow> nat \<Rightarrow> string \<Rightarrow> string \<Rightarrow> bool" where
  "matches i j wx wy = (i < length wx \<and> j < length wy \<and> wx ! i = wy ! j)"

definition supported :: "nat \<Rightarrow> nat \<Rightarrow> string list \<Rightarrow> string \<Rightarrow> bool" where
  "supported i j ys wx = (\<exists>wy \<in> set ys. matches i j wx wy)"

definition arc_consistent :: "Crossword \<Rightarrow> domains \<Rightarrow> bool" where
  "arc_consistent cw doms =
     (\<forall>x \<in> set (variables cw). \<forall>y \<in> set (neighbors cw x).
        case overlaps cw (x, y) of
          Some (Some (i, j)) \<Rightarrow>
            (\<forall>wx \<in> set (domain_of doms x). \<exists>wy \<in> set (domain_of doms y). matches i j wx wy)
        | _ \<Rightarrow> False)"

lemma domain_of_remove_words:
  "domain_of (remove_words x R doms) v =
     (if v = x then filter (\<lambda>w. w \<notin> R) (domain_of doms x) else domain_of doms v)"
  by (auto simp: domain_of_def map_of_remove_words split: option.splits)

lemma lookup_domain_domain_of: "lookup_domain doms x = Inr ws \<Longrightarrow> domain_of doms x = ws"
  by (simp add: lookup_domain_Inr domain_of_def)

lemma revise_inner_result:
  "revise_inner xw i j ys rm0 = Inr rm \<Longrightarrow> rm \<longleftrightarrow> rm0 \<and> \<not> supported i j ys xw"
proof (induction ys arbitrary: rm0)
  case Nil
  then show ?case by (simp add: supported_def)
next
  case (Cons yw ys)
  from Cons.prems obtain a b where a: "char_at xw i = Inr a" and b: "char_at yw j = Inr b"
    and r: "revise_inner xw i j ys (if a = b then False else rm0) = Inr rm"
    by (auto split: sum.splits)
  have m: "matches i j xw yw \<longleftrightarrow> a = b"
    using a b by (auto simp: char_at_def matches_def split: if_splits)
  show ?case using Cons.IH[OF r] m by (auto simp: supported_def)
qed

lemma revise_loop_precise:
  assumes ne: "x \<noteq> y"
  shows "revise_loop x y i j wl doms revised = Inr (r, doms') \<Longrightarrow>
         doms' = remove_words x {w \<in> set wl. \<not> supported i j (domain_of doms y) w} doms"
proof (induction wl arbitrary: doms revised)
  case Nil
  then show ?case by simp
next
  case (Cons w wl)
  from Cons.prems obtain ys rm where ys: "lookup_domain doms y = Inr ys"
    and rm: "revise_inner w i j ys True = Inr rm"
    by (auto split: sum.splits)
  have dy: "domain_of doms y = ys" by (rule lookup_domain_domain_of[OF ys])
  have rm_iff: "rm \<longleftrightarrow> \<not> supported i j ys w" using revise_inner_result[OF rm] by simp
  show ?case
  proof (cases rm)
    case True
    then have l: "revise_loop x y i j wl (remove_word x w doms) True = Inr (r, doms')"
      using Cons.prems ys rm by simp
    have dy': "domain_of (remove_word x w doms) y = ys"
      using ne dy by (simp add: remove_word_conv domain_of_remove_words)
    have "doms' = remove_words x {w' \<in> set wl. \<not> supported i j ys w'} (remove_word x w doms)"
      using Cons.IH[OF l] dy' by simp
    then have "doms' = remove_words x ({w' \<in> set wl. \<not> supported i j ys w'} \<union> {w}) doms"
      by (simp add: remove_word_conv remove_words_twice)
    moreover have "{w' \<in> set wl. \<not> supported i j ys w'} \<union> {w} =
                   {w' \<in> set (w # wl). \<not> supported i j ys w'}"
      using True rm_iff by auto
    ultimately show ?thesis using dy by simp
  next
    case False
    then have l: "revise_loop x y i j wl doms revised = Inr (r, doms')"
      using Cons.prems ys rm by simp
    have "{w' \<in> set wl. \<not> supported i j ys w'} = {w' \<in> set (w # wl). \<not> supported i j ys w'}"
      using False rm_iff by auto
    then show ?thesis using Cons.IH[OF l] dy by simp
  qed
qed

lemma lookup_overlap_Inr:
  "lookup_overlap cw x y = Inr ij \<longleftrightarrow> overlaps cw (x, y) = Some (Some ij)"
  by (auto simp: lookup_overlap_def split: option.splits)

lemma revise_domains_precise:
  assumes rv: "revise_domains cw doms x y = Inr (revised, doms')"
  shows "\<exists>i j. overlaps cw (x, y) = Some (Some (i, j)) \<and>
           (x \<noteq> y \<longrightarrow>
              doms' = remove_words x {w \<in> set (domain_of doms x).
                                        \<not> supported i j (domain_of doms y) w} doms)"
proof -
  from rv obtain i j xs where o: "lookup_overlap cw x y = Inr (i, j)"
    and xs: "lookup_domain doms x = Inr xs"
    and l: "revise_loop x y i j (remdups xs) doms False = Inr (revised, doms')"
    by (auto simp: revise_domains_def split: sum.splits prod.splits)
  have "x \<noteq> y \<longrightarrow> doms' = remove_words x {w \<in> set (domain_of doms x).
                                        \<not> supported i j (domain_of doms y) w} doms"
    using revise_loop_precise[OF _ l] lookup_domain_domain_of[OF xs] by simp
  then show ?thesis using o by (auto simp: lookup_overlap_Inr)
qed

text \<open>An arc is consistent: every word of \<open>x\<close> is supported by a word of \<open>y\<close>.\<close>

definition arc_ok :: "Crossword \<Rightarrow> domains \<Rightarrow> Variable \<Rightarrow> Variable \<Rightarrow> bool" where
  "arc_ok cw doms x y =
     (\<exists>i j. overlaps cw (x, y) = Some (Some (i, j)) \<and>
            (\<forall>wx \<in> set (domain_of doms x). supported i j (domain_of doms y) wx))"

lemma matches_swap: "matches i j wx wy \<longleftrightarrow> matches j i wy wx"
  by (auto simp: matches_def)

lemma neighbors_iff:
  "y \<in> set (neighbors cw x) \<longleftrightarrow>
   y \<in> set (variables cw) \<and> y \<noteq> x \<and> (\<exists>ij. overlaps cw (y, x) = Some (Some ij))"
  by (auto simp: neighbors_def split: option.splits)

lemma overlap_swap:
  assumes init: "Crossword_init contents ws = Inr cw"
    and o: "overlaps cw (x, y) = Some (Some (i, j))"
  shows "overlaps cw (y, x) = Some (Some (j, i))" and "x \<in> set (variables cw)"
    and "y \<in> set (variables cw)" and "x \<noteq> y" and "i < var_length x" and "j < var_length y"
proof -
  have m: "x \<in> set (variables cw)" "y \<in> set (variables cw)" "x \<noteq> y"
    using o overlaps_Some[OF init, of x y] by simp_all
  from overlaps_cases[OF init m] o
  show "overlaps cw (y, x) = Some (Some (j, i))" "i < var_length x" "j < var_length y" by auto
  show "x \<in> set (variables cw)" "y \<in> set (variables cw)" "x \<noteq> y" by (rule m)+
qed

lemma neighbors_sym:
  assumes init: "Crossword_init contents ws = Inr cw" and "y \<in> set (neighbors cw x)"
  shows "x \<in> set (neighbors cw y)"
proof -
  from assms(2) obtain ij where o: "overlaps cw (y, x) = Some (Some ij)" and ne: "y \<noteq> x"
    by (auto simp: neighbors_iff)
  obtain i j where ij: "ij = (i, j)" by (cases ij)
  from overlap_swap[OF init o[unfolded ij]] ne show ?thesis by (auto simp: neighbors_iff)
qed

lemma arc_ok_after_revise:
  assumes init: "Crossword_init contents ws = Inr cw"
    and rv: "revise_domains cw doms x y = Inr (revised, d1)"
  shows "arc_ok cw d1 x y"
    and "\<And>a b. a \<noteq> x \<Longrightarrow> b \<noteq> x \<Longrightarrow> arc_ok cw doms a b \<Longrightarrow> arc_ok cw d1 a b"
    and "\<And>b. b \<noteq> x \<Longrightarrow> arc_ok cw doms x b \<Longrightarrow> arc_ok cw d1 x b"
    and "arc_ok cw doms y x \<Longrightarrow> arc_ok cw d1 y x"
proof -
  from revise_domains_precise[OF rv] obtain i j where
    o: "overlaps cw (x, y) = Some (Some (i, j))" and
    d: "x \<noteq> y \<longrightarrow> d1 = remove_words x {w \<in> set (domain_of doms x).
                                        \<not> supported i j (domain_of doms y) w} doms"
    by blast
  note sw = overlap_swap[OF init o]
  define R where "R = {w \<in> set (domain_of doms x). \<not> supported i j (domain_of doms y) w}"
  have d1: "d1 = remove_words x R doms" using d sw(4) R_def by simp
  have dx: "domain_of d1 x = filter (\<lambda>w. w \<notin> R) (domain_of doms x)"
    by (simp add: d1 domain_of_remove_words)
  have dother: "v \<noteq> x \<Longrightarrow> domain_of d1 v = domain_of doms v" for v
    by (simp add: d1 domain_of_remove_words)
  show "arc_ok cw d1 x y"
    unfolding arc_ok_def using o sw(4) dother[of y] by (auto simp: dx R_def)
  show "arc_ok cw d1 a b" if "a \<noteq> x" "b \<noteq> x" "arc_ok cw doms a b" for a b
    using that by (simp add: arc_ok_def dother)
  show "arc_ok cw d1 x b" if "b \<noteq> x" "arc_ok cw doms x b" for b
    using that by (auto simp: arc_ok_def dother dx)
  show "arc_ok cw d1 y x" if ok: "arc_ok cw doms y x"
  proof -
    have all: "\<forall>wy \<in> set (domain_of doms y). supported j i (domain_of doms x) wy"
      using ok sw(1) by (simp add: arc_ok_def)
    have "supported j i (domain_of d1 x) wy" if wy: "wy \<in> set (domain_of doms y)" for wy
    proof -
      from all wy obtain wx where wx: "wx \<in> set (domain_of doms x)" "matches j i wy wx"
        by (auto simp: supported_def)
      then have "supported i j (domain_of doms y) wx"
        using wy matches_swap[of i j wx wy] by (auto simp: supported_def)
      then have "wx \<notin> R" by (simp add: R_def)
      then have "wx \<in> set (domain_of d1 x)" using wx(1) by (simp add: dx)
      then show ?thesis using wx(2) by (auto simp: supported_def)
    qed
    then show ?thesis using sw(1,4) dother[of y] by (auto simp: arc_ok_def)
  qed
qed

lemma ac3_loop_arc_ok:
  "Crossword_init contents ws = Inr cw \<Longrightarrow>
   ac3_loop cw doms arcs = Inr (True, doms') \<Longrightarrow>
   (\<forall>a b. b \<in> set (neighbors cw a) \<longrightarrow> (a, b) \<notin> set arcs \<longrightarrow> arc_ok cw doms a b) \<Longrightarrow>
   (\<forall>a b. b \<in> set (neighbors cw a) \<longrightarrow> arc_ok cw doms' a b)"
proof (induction cw doms arcs rule: ac3_loop.induct)
  case (1 cw doms arcs)
  note init = "1.prems"(1) and run = "1.prems"(2) and inv0 = "1.prems"(3)
  show ?case
  proof (cases "ac3_body cw doms arcs")
    case (Inl result)
    then have b: "ac3_body cw doms arcs = Inl (Inr (True, doms'))"
      using run by (simp add: ac3_loop.simps)
    from b show ?thesis
    proof (cases rule: ac3_body_Inl_cases)
      case 1
      then show ?thesis using inv0 by simp
    next
      case (2 x y rest)
      then show ?thesis by simp
    qed
  next
    case (Inr next_state)
    obtain d1 arcs1 where n: "next_state = (d1, arcs1)" by (cases next_state)
    have b: "ac3_body cw doms arcs = Inr (d1, arcs1)" using Inr n by simp
    have l: "ac3_loop cw d1 arcs1 = Inr (True, doms')"
      using run b by (simp add: ac3_loop.simps)
    have inv: "\<forall>a b. b \<in> set (neighbors cw a) \<longrightarrow> (a, b) \<notin> set arcs1 \<longrightarrow> arc_ok cw d1 a b"
      using b
    proof (cases rule: ac3_body_Inr_cases)
      case (1 x y rest)
      show ?thesis
      proof (intro allI impI)
        fix a b assume nb: "b \<in> set (neighbors cw a)" and notin: "(a, b) \<notin> set arcs1"
        show "arc_ok cw d1 a b"
        proof (cases "(a, b) = (x, y)")
          case True
          then show ?thesis using arc_ok_after_revise(1)[OF init 1(2)] by simp
        next
          case False
          then have "(a, b) \<notin> set arcs" using notin 1(1,4) by simp
          then show ?thesis using inv0 nb 1(3) by simp
        qed
      qed
    next
      case (2 x y rest xs)
      note pres = arc_ok_after_revise[OF init 2(2)]
      show ?thesis
      proof (intro allI impI)
        fix a b assume nb: "b \<in> set (neighbors cw a)" and notin: "(a, b) \<notin> set arcs1"
        show "arc_ok cw d1 a b"
        proof (cases "(a, b) = (x, y)")
          case True
          then show ?thesis using pres(1) by simp
        next
          case False
          have nrest: "(a, b) \<notin> set rest" using notin 2(5) by simp
          then have "(a, b) \<notin> set arcs" using False 2(1) by simp
          then have old: "arc_ok cw doms a b" using inv0 nb by simp
          show ?thesis
          proof (cases "b = x")
            case True
            have "a \<in> set (neighbors cw x)" using neighbors_sym[OF init nb] True by simp
            moreover have "\<not> (a \<in> set (neighbors cw x) \<and> a \<noteq> y)"
              using notin 2(5) True by auto
            ultimately have "a = y" by simp
            then show ?thesis using pres(4) old True by simp
          next
            case bx: False
            show ?thesis
            proof (cases "a = x")
              case True
              then show ?thesis using pres(3)[OF bx] old by simp
            next
              case False
              then show ?thesis using pres(2)[OF False bx] old by simp
            qed
          qed
        qed
      qed
    qed
    show ?thesis using "1.IH"[OF Inr n[symmetric] init l inv] .
  qed
qed

lemma all_arcs_member:
  "(x, y) \<in> set (all_arcs cw doms) \<longleftrightarrow> x \<in> set (map fst doms) \<and> y \<in> set (neighbors cw x)"
  by (auto simp: all_arcs_def)

lemma apply_ac3_arc_ok:
  assumes init: "Crossword_init contents ws = Inr cw"
    and keys: "set (variables cw) \<subseteq> set (map fst doms)"
    and ac: "apply_ac3 cw doms None = Inr (True, doms')"
  shows "b \<in> set (neighbors cw a) \<Longrightarrow> arc_ok cw doms' a b"
proof -
  assume nb: "b \<in> set (neighbors cw a)"
  have l: "ac3_loop cw doms (rev (all_arcs cw doms)) = Inr (True, doms')"
    using ac by (simp add: apply_ac3_def)
  have "\<forall>a b. b \<in> set (neighbors cw a) \<longrightarrow> (a, b) \<notin> set (rev (all_arcs cw doms)) \<longrightarrow>
          arc_ok cw doms a b"
  proof (intro allI impI)
    fix a b assume nb: "b \<in> set (neighbors cw a)" and "(a, b) \<notin> set (rev (all_arcs cw doms))"
    then have "a \<notin> set (map fst doms)" by (simp add: all_arcs_member)
    moreover have "a \<in> set (variables cw)"
      using neighbors_sym[OF init nb] by (simp add: neighbors_iff)
    ultimately show "arc_ok cw doms a b" using keys by blast
  qed
  from ac3_loop_arc_ok[OF init l this] nb show ?thesis by blast
qed

text \<open>
  Claim C6, amended. When \<open>apply_ac3\<close>, called without a worklist (so that it starts from
  all arcs) on domains that have an entry for every slot, returns \<open>True\<close>, the domains it
  leaves are arc consistent: for every slot \<open>x\<close>, every neighbour \<open>y\<close> of \<open>x\<close> and the
  overlap \<open>(i, j)\<close> of the two, every word left in the domain of \<open>x\<close> has a word in the
  domain of \<open>y\<close> with the same character at the shared cell. With a worklist given by
  the caller this need not hold.
\<close>

theorem apply_ac3_arc_consistent:
  assumes init: "Crossword_init contents ws = Inr cw"
    and keys: "set (variables cw) \<subseteq> set (map fst doms)"
    and ac: "apply_ac3 cw doms None = Inr (True, doms')"
  shows "arc_consistent cw doms'"
  unfolding arc_consistent_def
proof (intro ballI)
  fix x y assume "x \<in> set (variables cw)" and nb: "y \<in> set (neighbors cw x)"
  from apply_ac3_arc_ok[OF init keys ac nb]
  show "case overlaps cw (x, y) of
          Some (Some (i, j)) \<Rightarrow>
            (\<forall>wx \<in> set (domain_of doms' x). \<exists>wy \<in> set (domain_of doms' y). matches i j wx wy)
        | _ \<Rightarrow> False"
    by (auto simp: arc_ok_def supported_def)
qed

section \<open>Node consistency and the safety of domain revision\<close>

definition node_consistent :: "domains \<Rightarrow> bool" where
  "node_consistent doms = (\<forall>(v, ws) \<in> set doms. \<forall>w \<in> set ws. length w = var_length v)"

lemma node_inner_fold:
  "fold (\<lambda>word ds'. if length word \<noteq> L then remove_word var word ds' else ds') wl ds =
     remove_words var {w \<in> set wl. length w \<noteq> L} ds"
proof (induction wl arbitrary: ds)
  case Nil
  then show ?case by simp
next
  case (Cons w wl)
  have "{u \<in> set wl. length u \<noteq> L} \<union> {w} = {u \<in> set (w # wl). length u \<noteq> L}"
    if "length w \<noteq> L" using that by auto
  moreover have "{u \<in> set wl. length u \<noteq> L} = {u \<in> set (w # wl). length u \<noteq> L}"
    if "length w = L" using that by auto
  ultimately show ?case using Cons
    by (cases "length w = L") (simp_all add: remove_word_conv remove_words_twice)
qed

text \<open>The domains after every slot \<open>v\<close> has lost the words of \<open>B v\<close>.\<close>

definition prune :: "(Variable \<Rightarrow> string set) \<Rightarrow> domains \<Rightarrow> domains" where
  "prune B doms = map (\<lambda>(v, ws). (v, filter (\<lambda>w. w \<notin> B v) ws)) doms"

lemma remove_words_prune: "remove_words x R doms = prune (\<lambda>v. if v = x then R else {}) doms"
  by (induction doms) (auto simp: remove_words_def prune_def)

lemma prune_prune: "prune B (prune C doms) = prune (\<lambda>v. B v \<union> C v) doms"
  by (induction doms) (auto simp: prune_def conj_commute)

text \<open>The pass of the outer loop of \<open>ensure_node_consistency\<close> for one slot.\<close>

definition node_step :: "Variable \<times> string list \<Rightarrow> domains \<Rightarrow> domains" where
  "node_step = (\<lambda>(var, ws) ds.
      fold (\<lambda>word ds'. if length word \<noteq> var_length var then remove_word var word ds' else ds')
           (remdups ws) ds)"

lemma node_step_prune:
  "node_step (var, ws) ds =
     prune (\<lambda>v. if v = var then {w \<in> set ws. length w \<noteq> var_length var} else {}) ds"
  by (simp add: node_step_def node_inner_fold remove_words_prune)

lemma node_outer_fold:
  "fold node_step items ds =
   prune (\<lambda>v. {w. \<exists>ws. (v, ws) \<in> set items \<and> w \<in> set ws \<and> length w \<noteq> var_length v}) ds"
proof (induction items arbitrary: ds)
  case Nil
  have "prune (\<lambda>v. {}) ds = ds" by (induction ds) (auto simp: prune_def)
  then show ?case by simp
next
  case (Cons p items)
  obtain var ws where p: "p = (var, ws)" by (cases p)
  let ?B = "\<lambda>v. {w. \<exists>ws'. (v, ws') \<in> set items \<and> w \<in> set ws' \<and> length w \<noteq> var_length v}"
  let ?C = "\<lambda>v. if v = var then {w \<in> set ws. length w \<noteq> var_length var} else {}"
  have eq: "(\<lambda>v. ?B v \<union> ?C v) =
            (\<lambda>v. {w. \<exists>ws'. (v, ws') \<in> set (p # items) \<and> w \<in> set ws' \<and> length w \<noteq> var_length v})"
    unfolding p by (rule ext) auto
  have "fold node_step (p # items) ds = fold node_step items (node_step (var, ws) ds)"
    by (simp add: p)
  also have "\<dots> = prune ?B (prune ?C ds)"
    by (simp only: Cons node_step_prune)
  also have "\<dots> = prune (\<lambda>v. ?B v \<union> ?C v) ds" by (rule prune_prune)
  finally show ?case by (simp only: eq)
qed

lemma ensure_node_consistency_eq:
  "ensure_node_consistency doms =
     map (\<lambda>(v, ws). (v, filter (\<lambda>w. length w = var_length v) ws)) doms"
proof -
  have "filter (\<lambda>w. w \<notin> {w. \<exists>ws'. (v, ws') \<in> set doms \<and> w \<in> set ws' \<and> length w \<noteq> var_length v}) ws
        = filter (\<lambda>w. length w = var_length v) ws" if "(v, ws) \<in> set doms" for v ws
    using that by (intro filter_cong) auto
  then show ?thesis
    unfolding ensure_node_consistency_def node_step_def[symmetric] node_outer_fold prune_def
    by auto
qed

lemma keys_ensure_node_consistency [simp]:
  "map fst (ensure_node_consistency doms) = map fst doms"
  by (simp add: ensure_node_consistency_eq comp_def case_prod_beta)

lemma node_consistent_ensure: "node_consistent (ensure_node_consistency doms)"
  by (auto simp: ensure_node_consistency_eq node_consistent_def)

lemma node_consistent_remove_words:
  "node_consistent doms \<Longrightarrow> node_consistent (remove_words x R doms)"
  by (auto simp: node_consistent_def remove_words_def split: if_splits)

lemma node_consistent_domain_of:
  assumes "node_consistent doms" and "w \<in> set (domain_of doms v)"
  shows "length w = var_length v"
proof (cases "map_of doms v")
  case None
  then show ?thesis using assms(2) by (simp add: domain_of_def)
next
  case (Some ws)
  then have "(v, ws) \<in> set doms" by (rule map_of_SomeD)
  moreover have "w \<in> set ws" using assms(2) Some by (simp add: domain_of_def)
  ultimately show ?thesis using assms(1) by (auto simp: node_consistent_def)
qed

lemma revise_inner_safe:
  assumes "i < length xw" and "\<forall>yw \<in> set ys. j < length yw"
  shows "\<exists>rm. revise_inner xw i j ys rm0 = Inr rm"
  using assms(2)
proof (induction ys arbitrary: rm0)
  case Nil
  then show ?case by simp
next
  case (Cons yw ys)
  then show ?case using assms(1) by (simp add: char_at_def)
qed

lemma revise_loop_safe:
  assumes ne: "x \<noteq> y" and y: "map_of doms y = Some ys" and ys: "\<forall>yw \<in> set ys. j < length yw"
  shows "\<forall>w \<in> set wl. i < length w \<Longrightarrow> \<exists>r d. revise_loop x y i j wl doms revised = Inr (r, d)"
  using y
proof (induction wl arbitrary: doms revised)
  case Nil
  then show ?case by simp
next
  case (Cons w wl)
  have ly: "lookup_domain doms y = Inr ys" using Cons.prems(2) by (simp add: lookup_domain_Inr)
  from revise_inner_safe[OF _ ys, of i w True] Cons.prems(1)
  obtain rm where rm: "revise_inner w i j ys True = Inr rm" by auto
  have y': "map_of (remove_word x w doms) y = Some ys"
    using ne Cons.prems(2) by (simp add: remove_word_conv map_of_remove_words)
  have wl: "\<forall>w \<in> set wl. i < length w" using Cons.prems(1) by simp
  show ?case
    using Cons.IH[OF wl y', of True] Cons.IH[OF wl Cons.prems(2), of revised] ly rm
    by (cases rm) simp_all
qed

lemma domain_of_Some: "map_of doms x = Some ws \<Longrightarrow> domain_of doms x = ws"
  by (simp add: domain_of_def)

lemma revise_domains_safe:
  assumes init: "Crossword_init contents ws = Inr cw"
    and o: "overlaps cw (x, y) = Some (Some ij)"
    and keys: "set (variables cw) \<subseteq> set (map fst doms)"
    and nc: "node_consistent doms"
  shows "\<exists>revised d. revise_domains cw doms x y = Inr (revised, d)"
proof -
  obtain i j where ij: "ij = (i, j)" by (cases ij)
  note sw = overlap_swap[OF init o[unfolded ij]]
  from sw(2,3) keys obtain xs ys where xs: "map_of doms x = Some xs" and ys: "map_of doms y = Some ys"
    by (metis (no_types, opaque_lifting) subsetD map_of_eq_None_iff not_Some_eq set_map)
  have lx: "\<forall>w \<in> set (remdups xs). i < length w"
    using node_consistent_domain_of[OF nc, of _ x] sw(5) domain_of_Some[OF xs] by simp
  have ly: "\<forall>w \<in> set ys. j < length w"
    using node_consistent_domain_of[OF nc, of _ y] sw(6) domain_of_Some[OF ys] by simp
  from revise_loop_safe[OF sw(4) ys ly lx, of False]
  show ?thesis using o ij xs
    by (simp add: revise_domains_def lookup_overlap_def lookup_domain_def)
qed

lemma ac3_loop_safe:
  "Crossword_init contents ws = Inr cw \<Longrightarrow>
   set (variables cw) \<subseteq> set (map fst doms) \<Longrightarrow>
   node_consistent doms \<Longrightarrow>
   (\<forall>(x, y) \<in> set arcs. \<exists>ij. overlaps cw (x, y) = Some (Some ij)) \<Longrightarrow>
   \<exists>ok doms'. ac3_loop cw doms arcs = Inr (ok, doms')"
proof (induction cw doms arcs rule: ac3_loop.induct)
  case (1 cw doms arcs)
  note init = "1.prems"(1) and keys = "1.prems"(2) and nc = "1.prems"(3) and arcs = "1.prems"(4)
  show ?case
  proof (cases arcs)
    case Nil
    then show ?thesis by (auto simp: ac3_loop.simps ac3_body_def)
  next
    case (Cons p rest)
    obtain x y where p: "p = (x, y)" by (cases p)
    have a: "arcs = (x, y) # rest" using Cons p by simp
    from arcs a obtain ij where o: "overlaps cw (x, y) = Some (Some ij)" by auto
    from revise_domains_safe[OF init o keys nc] obtain revised d where
      rv: "revise_domains cw doms x y = Inr (revised, d)" by blast
    from revise_domains_result[OF rv] obtain xs R where
      d: "map_of doms x = Some xs" "d = remove_words x R doms" by blast
    have keys': "set (variables cw) \<subseteq> set (map fst d)" using keys d(2) by simp
    have nc': "node_consistent d" using nc d(2) by (simp add: node_consistent_remove_words)
    have rest: "\<forall>(x, y) \<in> set rest. \<exists>ij. overlaps cw (x, y) = Some (Some ij)"
      using arcs a by simp
    note body = ac3_body_Cons[OF rv, of rest]
    show ?thesis
    proof (cases revised)
      case False
      then have b: "ac3_body cw doms arcs = Inr (d, rest)" using body a by simp
      from "1.IH"[OF b refl init keys' nc' rest] show ?thesis
        using b by (simp add: ac3_loop.simps)
    next
      case True
      have lx: "lookup_domain d x = Inr (filter (\<lambda>w. w \<notin> R) xs)"
        using d by (simp add: lookup_domain_Inr map_of_remove_words)
      show ?thesis
      proof (cases "filter (\<lambda>w. w \<notin> R) xs = []")
        case e: True
        then have "ac3_body cw doms arcs = Inl (Inr (False, d))"
          using body a True lx by simp
        then show ?thesis by (auto simp: ac3_loop.simps)
      next
        case ne: False
        let ?new = "rev (map (\<lambda>z. (z, x)) (filter (\<lambda>z. z \<noteq> y) (neighbors cw x))) @ rest"
        have b: "ac3_body cw doms arcs = Inr (d, ?new)"
          using body a True lx ne by simp
        have new: "\<forall>(x, y) \<in> set ?new. \<exists>ij. overlaps cw (x, y) = Some (Some ij)"
          using rest by (auto simp: neighbors_iff)
        from "1.IH"[OF b refl init keys' nc' new] show ?thesis
          using b by (simp add: ac3_loop.simps)
      qed
    qed
  qed
qed

lemma all_arcs_overlap:
  assumes init: "Crossword_init contents ws = Inr cw"
  shows "\<forall>(x, y) \<in> set (rev (all_arcs cw doms)). \<exists>ij. overlaps cw (x, y) = Some (Some ij)"
proof (clarify)
  fix x y assume "(x, y) \<in> set (rev (all_arcs cw doms))"
  then have "y \<in> set (neighbors cw x)" by (simp add: all_arcs_member)
  from neighbors_sym[OF init this] show "\<exists>ij. overlaps cw (x, y) = Some (Some ij)"
    by (auto simp: neighbors_iff)
qed

text \<open>
  Claim C10. In the call sequence of \<open>find_solution\<close> (node consistency, then \<open>apply_ac3\<close>
  with no worklist given), on domains with an entry for every slot, arc consistency ends
  with a result and never with an exception: no arc that is revised has a missing or
  \<open>None\<close> overlap entry (\<open>KeyError\<close>, \<open>TypeError\<close>), and no character index of the comparison
  is outside its word (\<open>IndexError\<close>).
\<close>

theorem apply_ac3_no_error:
  assumes init: "Crossword_init contents ws = Inr cw"
    and keys: "set (variables cw) \<subseteq> set (map fst doms)"
  shows "\<exists>ok doms'. apply_ac3 cw (ensure_node_consistency doms) None = Inr (ok, doms')"
  unfolding apply_ac3_def option.case
  by (rule ac3_loop_safe[OF init _ node_consistent_ensure all_arcs_overlap[OF init]])
     (use keys in simp)

section \<open>Backtracking search\<close>

text \<open>
  A solution: every slot has exactly one word, of the slot's length; no word is used
  twice; and the words of two slots with an overlap agree at the shared cell.
\<close>

definition valid_solution :: "Crossword \<Rightarrow> assignment \<Rightarrow> bool" where
  "valid_solution cw a =
     (distinct (map fst a) \<and> set (map fst a) = set (variables cw) \<and>
      (\<forall>(v, w) \<in> set a. length w = var_length v) \<and>
      distinct (map snd a) \<and>
      (\<forall>(x, wx) \<in> set a. \<forall>(y, wy) \<in> set a.
         case overlaps cw (x, y) of
           Some (Some (i, j)) \<Rightarrow> matches i j wx wy
         | _ \<Rightarrow> True))"

lemma check_neighbors_True:
  "check_neighbors cw a var word nbs = Inr True \<Longrightarrow> nb \<in> set nbs \<Longrightarrow> map_of a nb = Some nw \<Longrightarrow>
   \<exists>i j. overlaps cw (var, nb) = Some (Some (i, j)) \<and> matches i j word nw"
proof (induction nbs)
  case Nil
  then show ?case by simp
next
  case (Cons n nbs)
  show ?case
  proof (cases "map_of a n")
    case None
    then have "check_neighbors cw a var word nbs = Inr True" "nb \<noteq> n"
      using Cons.prems by auto
    then show ?thesis using Cons by simp
  next
    case (Some nword)
    from Cons.prems(1) Some obtain i j c1 c2 where
      o: "lookup_overlap cw var n = Inr (i, j)" and c1: "char_at word i = Inr c1"
      and c2: "char_at nword j = Inr c2"
      by (auto split: sum.splits)
    have eq: "c1 = c2" and rest: "check_neighbors cw a var word nbs = Inr True"
      using Cons.prems(1) Some o c1 c2 by (auto split: if_splits)
    have m: "matches i j word nword"
      using c1 c2 eq by (auto simp: char_at_def matches_def split: if_splits)
    show ?thesis
    proof (cases "nb = n")
      case True
      then show ?thesis using m o Some Cons.prems(3) by (auto simp: lookup_overlap_Inr)
    next
      case False
      then show ?thesis using Cons rest by simp
    qed
  qed
qed

lemma consistent_loop_True:
  "consistent_loop cw a items used = Inr True \<Longrightarrow>
   distinct (map snd items) \<and> set (map snd items) \<inter> set used = {} \<and>
   (\<forall>(var, word) \<in> set items.
      length word = var_length var \<and>
      check_neighbors cw a var word (neighbors cw var) = Inr True)"
proof (induction items arbitrary: used)
  case Nil
  then show ?case by simp
next
  case (Cons p items)
  obtain var word where p: "p = (var, word)" by (cases p)
  from Cons.prems p have 1: "word \<notin> set used" "length word = var_length var"
    by (auto split: if_splits)
  from Cons.prems p 1 have 2: "check_neighbors cw a var word (neighbors cw var) = Inr True"
    and 3: "consistent_loop cw a items (word # used) = Inr True"
    by (auto split: sum.splits if_splits)
  from Cons.IH[OF 3] 1 2 show ?case unfolding p by auto
qed

lemma is_consistent_agree:
  assumes init: "Crossword_init contents ws = Inr cw"
    and c: "is_consistent cw a = Inr True" and d: "distinct (map fst a)"
    and x: "(x, wx) \<in> set a" and y: "(y, wy) \<in> set a"
    and o: "overlaps cw (x, y) = Some (Some (i, j))"
  shows "matches i j wx wy"
proof -
  note sw = overlap_swap[OF init o]
  have nb: "y \<in> set (neighbors cw x)" using sw by (auto simp: neighbors_iff)
  have my: "map_of a y = Some wy" using d y by simp
  have "check_neighbors cw a x wx (neighbors cw x) = Inr True"
    using consistent_loop_True[OF c[unfolded is_consistent_def]] x by auto
  from check_neighbors_True[OF this nb my] o show ?thesis by simp
qed

lemma is_consistent_valid:
  assumes init: "Crossword_init contents ws = Inr cw"
    and c: "is_consistent cw a = Inr True" and d: "distinct (map fst a)"
    and k: "set (map fst a) = set (variables cw)"
  shows "valid_solution cw a"
proof -
  note l = consistent_loop_True[OF c[unfolded is_consistent_def]]
  have agree: "\<forall>(x, wx) \<in> set a. \<forall>(y, wy) \<in> set a.
         case overlaps cw (x, y) of Some (Some (i, j)) \<Rightarrow> matches i j wx wy | _ \<Rightarrow> True"
    using is_consistent_agree[OF init c d] by (auto split: option.splits)
  show ?thesis unfolding valid_solution_def using l d k agree by auto
qed

text \<open>What the search keeps: the slots of the assignment are distinct slots of the crossword.\<close>

definition partial_assignment :: "Crossword \<Rightarrow> assignment \<Rightarrow> bool" where
  "partial_assignment cw a = (distinct (map fst a) \<and> set (map fst a) \<subseteq> set (variables cw))"

lemma partial_assignment_extend:
  assumes "partial_assignment cw a" and "var \<in> set (unassigned a (variables cw))"
  shows "partial_assignment cw (a @ [(var, val)])"
  using assms by (auto simp: partial_assignment_def unassigned_def)

lemma backtracking_result:
  "perform_backtracking cw doms a = Inr (Some r) \<Longrightarrow>
   partial_assignment cw a \<Longrightarrow> a = [] \<or> is_consistent cw a = Inr True \<Longrightarrow>
   partial_assignment cw r \<and> length r = length (variables cw) \<and>
   (r = [] \<or> is_consistent cw r = Inr True)"
  and try_values_result:
  "try_values cw doms var vals a = Inr (Some r) \<Longrightarrow>
   partial_assignment cw a \<Longrightarrow> var \<in> set (unassigned a (variables cw)) \<Longrightarrow>
   partial_assignment cw r \<and> length r = length (variables cw) \<and>
   (r = [] \<or> is_consistent cw r = Inr True)"
proof (induction cw doms a and cw doms var vals a
       rule: perform_backtracking_try_values.induct)
  case (1 cw doms a)
  show ?case
  proof (cases "is_assignment_complete cw a")
    case True
    then have "r = a" using "1.prems"(1) by (simp add: perform_backtracking.simps)
    then show ?thesis using True "1.prems"(2,3) by (simp add: is_assignment_complete_def)
  next
    case False
    from "1.prems"(1) False obtain var vals where
      s: "select_variable cw doms a = Inr (Some var)" and l: "lookup_domain doms var = Inr vals"
      and t: "try_values cw doms var vals a = Inr (Some r)"
      by (auto simp: perform_backtracking.simps split: sum.splits option.splits)
    from "1.IH"[OF False s refl l t "1.prems"(2) select_variable_unassigned[OF s]]
    show ?thesis .
  qed
next
  case (2 cw doms var a)
  then show ?case by simp
next
  case (3 cw doms var val rest a)
  from "3.prems"(1) obtain ok where c: "is_consistent cw (a @ [(var, val)]) = Inr ok"
    by (auto split: sum.splits)
  show ?case
  proof (cases ok)
    case True
    from "3.prems"(1) c True obtain res where
      p: "perform_backtracking cw doms (a @ [(var, val)]) = Inr res"
      by (auto split: sum.splits)
    show ?thesis
    proof (cases res)
      case None
      then have "try_values cw doms var rest a = Inr (Some r)"
        using "3.prems"(1) c True p by simp
      from "3.IH"(2)[OF c True p None this "3.prems"(2,3)] show ?thesis .
    next
      case (Some result)
      then have "result = r" using "3.prems"(1) c True p by simp
      then have p': "perform_backtracking cw doms (a @ [(var, val)]) = Inr (Some r)"
        using p Some by simp
      have "is_consistent cw (a @ [(var, val)]) = Inr True" using c True by simp
      from "3.IH"(1)[OF c True p' partial_assignment_extend[OF "3.prems"(2,3)] disjI2[OF this]]
      show ?thesis .
    qed
  next
    case False
    then have "try_values cw doms var rest a = Inr (Some r)" using "3.prems"(1) c by simp
    from "3.IH"(3)[OF c False this "3.prems"(2,3)] show ?thesis .
  qed
qed

lemma complete_keys:
  assumes "partial_assignment cw r" and "length r = length (variables cw)"
    and "distinct (variables cw)"
  shows "set (map fst r) = set (variables cw)"
proof -
  have "card (set (map fst r)) = length r"
    using assms(1) by (metis distinct_card length_map partial_assignment_def)
  moreover have "card (set (variables cw)) = length (variables cw)"
    using assms(3) by (simp add: distinct_card)
  ultimately show ?thesis
    using assms(1,2) by (intro card_subset_eq) (auto simp: partial_assignment_def)
qed

lemma backtracking_valid:
  assumes init: "Crossword_init contents ws = Inr cw"
    and r: "perform_backtracking cw doms [] = Inr (Some r)"
  shows "valid_solution cw r"
proof -
  have p: "partial_assignment cw []" by (simp add: partial_assignment_def)
  from backtracking_result[OF r p] have
    res: "partial_assignment cw r" "length r = length (variables cw)"
      "r = [] \<or> is_consistent cw r = Inr True" by simp_all
  note k = complete_keys[OF res(1,2) distinct_variables[OF init]]
  show ?thesis
  proof (cases "r = []")
    case True
    then show ?thesis using k by (simp add: valid_solution_def)
  next
    case False
    then have "is_consistent cw r = Inr True" using res(3) by simp
    from is_consistent_valid[OF init this _ k] res(1) show ?thesis
      by (simp add: partial_assignment_def)
  qed
qed

text \<open>
  Claim C1. Every assignment that \<open>find_solution\<close> returns is a solution of the crossword:
  every slot has exactly one word, whose length is the slot's; no word is given to two
  slots; and for every two slots with an overlap \<open>(i, j)\<close> the character \<open>i\<close> of the first
  word is the character \<open>j\<close> of the second.
\<close>

theorem find_solution_valid:
  assumes init: "Crossword_init contents ws = Inr cw"
    and r: "find_solution cw doms = Inr (Some a)"
  shows "valid_solution cw a"
proof -
  from r obtain doms' where "perform_backtracking cw doms' [] = Inr (Some a)"
    by (auto simp: find_solution_def split: sum.splits)
  then show ?thesis by (rule backtracking_valid[OF init])
qed

section \<open>The search after a failed arc consistency\<close>

text \<open>Every assigned word has the length of its slot.\<close>

definition word_lengths_ok :: "assignment \<Rightarrow> bool" where
  "word_lengths_ok a = (\<forall>(v, w) \<in> set a. length w = var_length v)"

lemma check_neighbors_safe:
  assumes init: "Crossword_init contents ws = Inr cw"
    and len: "length word = var_length var" and wl: "word_lengths_ok a"
  shows "set nbs \<subseteq> set (neighbors cw var) \<Longrightarrow> \<exists>b. check_neighbors cw a var word nbs = Inr b"
proof (induction nbs)
  case Nil
  then show ?case by auto
next
  case (Cons n nbs)
  then have n: "n \<in> set (neighbors cw var)" and ih: "\<exists>b. check_neighbors cw a var word nbs = Inr b"
    by simp_all
  show ?case
  proof (cases "map_of a n")
    case None
    then show ?thesis using ih by simp
  next
    case (Some nword)
    then have "(n, nword) \<in> set a" by (rule map_of_SomeD)
    then have ln: "length nword = var_length n" using wl by (auto simp: word_lengths_ok_def)
    from n obtain ij where "overlaps cw (n, var) = Some (Some ij)" by (auto simp: neighbors_iff)
    then obtain j i where o: "overlaps cw (n, var) = Some (Some (j, i))" by (cases ij) auto
    note sw = overlap_swap[OF init o]
    have "lookup_overlap cw var n = Inr (i, j)" using sw(1) by (simp add: lookup_overlap_Inr)
    moreover have "char_at word i = Inr (word ! i)" using sw(6) len by (simp add: char_at_def)
    moreover have "char_at nword j = Inr (nword ! j)" using sw(5) ln by (simp add: char_at_def)
    ultimately show ?thesis using Some ih by auto
  qed
qed

lemma consistent_loop_safe:
  assumes init: "Crossword_init contents ws = Inr cw" and wl: "word_lengths_ok a"
  shows "\<exists>b. consistent_loop cw a items used = Inr b"
proof (induction items arbitrary: used)
  case Nil
  then show ?case by auto
next
  case (Cons p items)
  obtain var word where p: "p = (var, word)" by (cases p)
  show ?case
  proof (cases "word \<in> set used \<or> length word \<noteq> var_length var")
    case True
    then show ?thesis unfolding p by auto
  next
    case False
    then have len: "length word = var_length var" by simp
    from check_neighbors_safe[OF init len wl subset_refl] obtain b where
      b: "check_neighbors cw a var word (neighbors cw var) = Inr b" by blast
    show ?thesis using Cons[of "word # used"] False b unfolding p by (cases b) auto
  qed
qed

lemma is_consistent_safe:
  assumes "Crossword_init contents ws = Inr cw" and "word_lengths_ok a"
  shows "\<exists>b. is_consistent cw a = Inr b"
  unfolding is_consistent_def by (rule consistent_loop_safe[OF assms])

lemma select_loop_safe:
  "\<forall>v \<in> set vs. map_of doms v \<noteq> None \<Longrightarrow>
   (\<forall>b. best = Some b \<longrightarrow> map_of doms b \<noteq> None) \<Longrightarrow>
   \<exists>r. select_loop cw doms vs best = Inr r \<and> (vs \<noteq> [] \<or> best \<noteq> None \<longrightarrow> r \<noteq> None)"
proof (induction cw doms vs best rule: select_loop.induct)
  case (1 cw doms best)
  then show ?case by simp
next
  case (2 cw doms var rest)
  then show ?case by simp
next
  case (3 cw doms var rest best)
  from "3.prems" obtain dv db where dv: "map_of doms var = Some dv" and db: "map_of doms best = Some db"
    by auto
  have lv: "lookup_domain doms var = Inr dv" and lb: "lookup_domain doms best = Inr db"
    using dv db by (simp_all add: lookup_domain_Inr)
  show ?case
  proof (cases "length dv < length db \<or> length (neighbors cw var) > length (neighbors cw best)")
    case True
    from "3.IH"(1)[OF lv lb True] "3.prems" show ?thesis using lv lb True by auto
  next
    case False
    from "3.IH"(2)[OF lv lb False] "3.prems" show ?thesis using lv lb False by auto
  qed
qed

lemma keys_map_of:
  "v \<in> set (map fst doms) \<Longrightarrow> map_of doms v \<noteq> None"
  by (simp add: map_of_eq_None_iff)

lemma select_variable_safe:
  assumes keys: "set (variables cw) \<subseteq> set (map fst doms)"
    and x: "x \<in> set (variables cw)" "x \<notin> set (map fst a)"
  shows "\<exists>var. select_variable cw doms a = Inr (Some var)"
proof -
  have "\<forall>v \<in> set (unassigned a (variables cw)). map_of doms v \<noteq> None"
  proof
    fix v assume "v \<in> set (unassigned a (variables cw))"
    then have "v \<in> set (map fst doms)" using keys by (auto simp: unassigned_def)
    then show "map_of doms v \<noteq> None" by (rule keys_map_of)
  qed
  from select_loop_safe[OF this, of None cw]
  obtain r where r: "select_variable cw doms a = Inr r"
      "unassigned a (variables cw) \<noteq> [] \<longrightarrow> r \<noteq> None"
    by (auto simp: select_variable_def)
  have "x \<in> set (unassigned a (variables cw))" using x by (simp add: unassigned_def)
  then have "unassigned a (variables cw) \<noteq> []" by auto
  then show ?thesis using r by auto
qed

lemma incomplete_if_unassigned:
  assumes p: "partial_assignment cw a" and x: "x \<in> set (variables cw)" "x \<notin> set (map fst a)"
  shows "\<not> is_assignment_complete cw a"
proof -
  have "set (map fst a) \<subset> set (variables cw)"
    using p x by (auto simp: partial_assignment_def)
  then have "card (set (map fst a)) < card (set (variables cw))"
    by (intro psubset_card_mono) simp_all
  moreover have "card (set (map fst a)) = length a"
    using p by (metis distinct_card length_map partial_assignment_def)
  moreover have "card (set (variables cw)) \<le> length (variables cw)" by (rule card_length)
  ultimately show ?thesis by (simp add: is_assignment_complete_def)
qed

lemma backtracking_stuck:
  "Crossword_init contents ws = Inr cw \<Longrightarrow>
   set (variables cw) \<subseteq> set (map fst doms) \<Longrightarrow> node_consistent doms \<Longrightarrow>
   x \<in> set (variables cw) \<Longrightarrow> map_of doms x = Some [] \<Longrightarrow>
   partial_assignment cw a \<Longrightarrow> word_lengths_ok a \<Longrightarrow> x \<notin> set (map fst a) \<Longrightarrow>
   perform_backtracking cw doms a = Inr None"
  and try_values_stuck:
  "Crossword_init contents ws = Inr cw \<Longrightarrow>
   set (variables cw) \<subseteq> set (map fst doms) \<Longrightarrow> node_consistent doms \<Longrightarrow>
   x \<in> set (variables cw) \<Longrightarrow> map_of doms x = Some [] \<Longrightarrow>
   partial_assignment cw a \<Longrightarrow> word_lengths_ok a \<Longrightarrow> x \<notin> set (map fst a) \<Longrightarrow>
   var \<in> set (unassigned a (variables cw)) \<Longrightarrow> set vals \<subseteq> set (domain_of doms var) \<Longrightarrow>
   try_values cw doms var vals a = Inr None"
proof (induction cw doms a and cw doms var vals a
       rule: perform_backtracking_try_values.induct)
  case (1 cw doms a)
  note init = "1.prems"(1) and keys = "1.prems"(2) and nc = "1.prems"(3) and x = "1.prems"(4,5)
    and pa = "1.prems"(6) and wl = "1.prems"(7) and xa = "1.prems"(8)
  have inc: "\<not> is_assignment_complete cw a" by (rule incomplete_if_unassigned[OF pa x(1) xa])
  from select_variable_safe[OF keys x(1) xa] obtain var where
    s: "select_variable cw doms a = Inr (Some var)" by blast
  note un = select_variable_unassigned[OF s]
  then have "var \<in> set (map fst doms)" using keys by (auto simp: unassigned_def)
  then obtain vals where m: "map_of doms var = Some vals" using keys_map_of by fastforce
  have l: "lookup_domain doms var = Inr vals" using m by (simp add: lookup_domain_Inr)
  have sub: "set vals \<subseteq> set (domain_of doms var)" using m by (simp add: domain_of_def)
  from "1.IH"[OF inc s refl l init keys nc x pa wl xa un sub]
  show ?case using inc s l by (simp add: perform_backtracking.simps)
next
  case (2 cw doms var a)
  then show ?case by simp
next
  case (3 cw doms var val rest a)
  note init = "3.prems"(1) and keys = "3.prems"(2) and nc = "3.prems"(3) and x = "3.prems"(4,5)
    and pa = "3.prems"(6) and wl = "3.prems"(7) and xa = "3.prems"(8) and un = "3.prems"(9)
    and sub = "3.prems"(10)
  have vx: "var \<noteq> x"
  proof
    assume "var = x"
    then have "domain_of doms var = []" using x(2) by (simp add: domain_of_def)
    then show False using sub by simp
  qed
  have vlen: "length val = var_length var"
    using node_consistent_domain_of[OF nc, of val var] sub by simp
  let ?a = "a @ [(var, val)]"
  have wl': "word_lengths_ok ?a" using wl vlen by (auto simp: word_lengths_ok_def)
  have pa': "partial_assignment cw ?a" by (rule partial_assignment_extend[OF pa un])
  have xa': "x \<notin> set (map fst ?a)" using xa vx by simp
  have sub': "set rest \<subseteq> set (domain_of doms var)" using sub by simp
  from is_consistent_safe[OF init wl'] obtain ok where c: "is_consistent cw ?a = Inr ok" by blast
  show ?case
  proof (cases ok)
    case True
    have p: "perform_backtracking cw doms ?a = Inr None"
      by (rule "3.IH"(1)[OF c True init keys nc x pa' wl' xa'])
    have "try_values cw doms var rest a = Inr None"
      by (rule "3.IH"(2)[OF c True p refl init keys nc x pa wl xa un sub'])
    then show ?thesis using c True p by simp
  next
    case False
    have "try_values cw doms var rest a = Inr None"
      by (rule "3.IH"(3)[OF c False init keys nc x pa wl xa un sub'])
    then show ?thesis using c False by simp
  qed
qed

lemma ac3_loop_preserves:
  "ac3_loop cw doms arcs = Inr (ok, doms') \<Longrightarrow>
   map fst doms' = map fst doms \<and> (node_consistent doms \<longrightarrow> node_consistent doms')"
proof (induction cw doms arcs rule: ac3_loop.induct)
  case (1 cw doms arcs)
  show ?case
  proof (cases "ac3_body cw doms arcs")
    case (Inl result)
    then have b: "ac3_body cw doms arcs = Inl (Inr (ok, doms'))"
      using "1.prems" by (simp add: ac3_loop.simps)
    from b show ?thesis
    proof (cases rule: ac3_body_Inl_cases)
      case 1
      then show ?thesis by simp
    next
      case (2 x y rest)
      from revise_domains_result[OF 2(2)] show ?thesis
        by (auto simp: node_consistent_remove_words)
    qed
  next
    case (Inr next_state)
    obtain d1 arcs1 where n: "next_state = (d1, arcs1)" by (cases next_state)
    have b: "ac3_body cw doms arcs = Inr (d1, arcs1)" using Inr n by simp
    have l: "ac3_loop cw d1 arcs1 = Inr (ok, doms')"
      using "1.prems" b by (simp add: ac3_loop.simps)
    have "\<exists>x R. d1 = remove_words x R doms"
      using b
    proof (cases rule: ac3_body_Inr_cases)
      case (1 x y rest)
      then show ?thesis using remove_words_empty[of x doms] by metis
    next
      case (2 x y rest xs)
      from revise_domains_result[OF 2(2)] show ?thesis by blast
    qed
    then have "map fst d1 = map fst doms" "node_consistent doms \<longrightarrow> node_consistent d1"
      by (auto simp: node_consistent_remove_words)
    then show ?thesis using "1.IH"[OF Inr n[symmetric] l] by simp
  qed
qed

text \<open>
  The words that the first call of the search made by \<open>find_solution\<close> assigns to its
  selected slot.
\<close>

definition find_solution_tries :: "Crossword \<Rightarrow> domains \<Rightarrow> string list" where
  "find_solution_tries cw doms =
     (case apply_ac3 cw (ensure_node_consistency doms) None of
        Inl e \<Rightarrow> []
      | Inr (ok, doms') \<Rightarrow> backtracking_tries cw doms' [])"

lemma find_solution_after_failure:
  assumes init: "Crossword_init contents ws = Inr cw"
    and keys: "set (map fst doms) = set (variables cw)"
    and ac: "apply_ac3 cw (ensure_node_consistency doms) None = Inr (False, doms')"
  shows "perform_backtracking cw doms' [] = Inr None"
proof -
  let ?d = "ensure_node_consistency doms"
  have l: "ac3_loop cw ?d (rev (all_arcs cw ?d)) = Inr (False, doms')"
    using ac by (simp add: apply_ac3_def)
  from ac3_loop_preserves[OF l] have k': "map fst doms' = map fst doms"
    and nc: "node_consistent doms'" by (simp_all add: node_consistent_ensure)
  from ac3_loop_ok_iff[OF l] obtain x xs where x: "map_of ?d x = Some xs" "map_of doms' x = Some []"
    by auto
  have "(x, xs) \<in> set ?d" using x(1) by (rule map_of_SomeD)
  then have "x \<in> fst ` set ?d" by force
  moreover have "set (map fst ?d) = set (map fst doms)"
    by (simp only: keys_ensure_node_consistency)
  ultimately have "x \<in> set (map fst doms)" by (simp only: set_map)
  then have xv: "x \<in> set (variables cw)" using keys by simp
  have keys': "set (variables cw) \<subseteq> set (map fst doms')" using k' keys by simp
  show ?thesis
    by (rule backtracking_stuck[OF init keys' nc xv x(2)])
       (simp_all add: partial_assignment_def word_lengths_ok_def)
qed

text \<open>
  Claim C2, amended. \<open>find_solution\<close> runs node consistency, then \<open>apply_ac3\<close>, and then
  always the backtracking search from the empty assignment on the domains that
  \<open>apply_ac3\<close> left, whatever \<open>apply_ac3\<close> returned. When \<open>apply_ac3\<close> returned \<open>False\<close>, that
  search finds nothing and \<open>find_solution\<close> reports no solution.
\<close>

theorem find_solution_after_ac3:
  assumes init: "Crossword_init contents ws = Inr cw"
    and keys: "set (map fst doms) = set (variables cw)"
    and ac: "apply_ac3 cw (ensure_node_consistency doms) None = Inr (ok, doms')"
  shows "find_solution cw doms = perform_backtracking cw doms' [] \<and>
         find_solution_tries cw doms = backtracking_tries cw doms' [] \<and>
         (\<not> ok \<longrightarrow> find_solution cw doms = Inr None)"
proof -
  have 1: "find_solution cw doms = perform_backtracking cw doms' []"
    using ac by (simp add: find_solution_def)
  have 2: "find_solution_tries cw doms = backtracking_tries cw doms' []"
    using ac by (simp add: find_solution_tries_def)
  have 3: "find_solution cw doms = Inr None" if "\<not> ok"
  proof -
    have "apply_ac3 cw (ensure_node_consistency doms) None = Inr (False, doms')"
      using ac that by simp
    from find_solution_after_failure[OF init keys this] show ?thesis using 1 by simp
  qed
  show ?thesis using 1 2 3 by blast
qed

section \<open>The order in which the search tries the words\<close>

lemma tried_values_prefix: "\<exists>rest. vals = tried_values cw doms var vals a @ rest"
proof (induction vals)
  case Nil
  then show ?case by simp
next
  case (Cons val vals)
  then obtain rest where r: "vals = tried_values cw doms var vals a @ rest" by blast
  show ?case
  proof (cases "is_consistent cw (a @ [(var, val)])")
    case (Inl e)
    then show ?thesis by simp
  next
    case (Inr ok)
    show ?thesis
    proof (cases ok)
      case False
      then have "tried_values cw doms var (val # vals) a = val # tried_values cw doms var vals a"
        using Inr by simp
      then show ?thesis using r by (metis append_Cons)
    next
      case True
      show ?thesis
      proof (cases "perform_backtracking cw doms (a @ [(var, val)])")
        case (Inl e)
        then show ?thesis using Inr True by simp
      next
        case res: (Inr res)
        show ?thesis
        proof (cases res)
          case None
          then have "tried_values cw doms var (val # vals) a
                       = val # tried_values cw doms var vals a"
            using Inr True res by simp
          then show ?thesis using r by (metis append_Cons)
        next
          case (Some result)
          then show ?thesis using Inr True res by simp
        qed
      qed
    qed
  qed
qed

text \<open>A branch fails: the extended assignment is inconsistent, or the search below it finds nothing.\<close>

definition branch_fails :: "Crossword \<Rightarrow> domains \<Rightarrow> assignment \<Rightarrow> Variable \<Rightarrow> string \<Rightarrow> bool" where
  "branch_fails cw doms a var val =
     (is_consistent cw (a @ [(var, val)]) = Inr False \<or>
      (is_consistent cw (a @ [(var, val)]) = Inr True \<and>
       perform_backtracking cw doms (a @ [(var, val)]) = Inr None))"

lemma try_values_first_success:
  "try_values cw doms var vals a = Inr (Some r) \<Longrightarrow>
   \<exists>pre val post. vals = pre @ val # post \<and>
      tried_values cw doms var vals a = pre @ [val] \<and>
      (\<forall>v \<in> set pre. branch_fails cw doms a var v) \<and>
      is_consistent cw (a @ [(var, val)]) = Inr True \<and>
      perform_backtracking cw doms (a @ [(var, val)]) = Inr (Some r)"
proof (induction vals)
  case Nil
  then show ?case by simp
next
  case (Cons v vals)
  from Cons.prems obtain ok where c: "is_consistent cw (a @ [(var, v)]) = Inr ok"
    by (auto split: sum.splits)
  have later: ?case if t: "try_values cw doms var vals a = Inr (Some r)"
    and f: "branch_fails cw doms a var v"
    and tr: "tried_values cw doms var (v # vals) a = v # tried_values cw doms var vals a"
  proof -
    from Cons.IH[OF t] obtain pre val post where
      p: "vals = pre @ val # post" "tried_values cw doms var vals a = pre @ [val]"
         "\<forall>u \<in> set pre. branch_fails cw doms a var u"
         "is_consistent cw (a @ [(var, val)]) = Inr True"
         "perform_backtracking cw doms (a @ [(var, val)]) = Inr (Some r)" by blast
    have 1: "v # vals = (v # pre) @ val # post" using p(1) by simp
    have 2: "tried_values cw doms var (v # vals) a = (v # pre) @ [val]"
      using tr p(2) by simp
    have 3: "\<forall>u \<in> set (v # pre). branch_fails cw doms a var u" using f p(3) by simp
    show ?thesis
      by (intro exI[of _ "v # pre"] exI[of _ val] exI[of _ post] conjI) (fact 1 2 3 p(4) p(5))+
  qed
  show ?case
  proof (cases ok)
    case False
    then have "try_values cw doms var vals a = Inr (Some r)" using Cons.prems c by simp
    moreover have "branch_fails cw doms a var v" using c False by (simp add: branch_fails_def)
    moreover have "tried_values cw doms var (v # vals) a = v # tried_values cw doms var vals a"
      using c False by simp
    ultimately show ?thesis by (rule later)
  next
    case True
    from Cons.prems c True obtain res where
      p: "perform_backtracking cw doms (a @ [(var, v)]) = Inr res"
      by (auto split: sum.splits)
    show ?thesis
    proof (cases res)
      case None
      then have "try_values cw doms var vals a = Inr (Some r)" using Cons.prems c True p by simp
      moreover have "branch_fails cw doms a var v"
        using c True p None by (simp add: branch_fails_def)
      moreover have "tried_values cw doms var (v # vals) a = v # tried_values cw doms var vals a"
        using c True p None by simp
      ultimately show ?thesis by (rule later)
    next
      case (Some result)
      then have "result = r" using Cons.prems c True p by simp
      then have p': "perform_backtracking cw doms (a @ [(var, v)]) = Inr (Some r)"
        using p Some by simp
      have 1: "v # vals = [] @ v # vals" by simp
      have 2: "tried_values cw doms var (v # vals) a = [] @ [v]"
        using c True p' by simp
      have 3: "\<forall>u \<in> set []. branch_fails cw doms a var u" by simp
      have 4: "is_consistent cw (a @ [(var, v)]) = Inr True" using c True by simp
      show ?thesis
        by (intro exI[of _ "[]"] exI[of _ v] exI[of _ vals] conjI) (fact 1 2 3 4 p')+
    qed
  qed
qed

text \<open>
  What the loop of the search does, for every input: the words of the selected slot are
  tried in the order in which its domain is iterated, so the words tried are an initial
  part of the domain. When the call returns an assignment, it is the one found below the
  first word of the domain whose branch does not fail, and no word after that one is
  tried. \<open>order_values\<close> takes no part in it.
\<close>

lemma backtracking_tries_domain_order:
  assumes inc: "\<not> is_assignment_complete cw a"
    and sel: "select_variable cw doms a = Inr (Some var)"
    and dom: "lookup_domain doms var = Inr vals"
  shows "(\<exists>rest. vals = backtracking_tries cw doms a @ rest) \<and>
         (\<forall>r. perform_backtracking cw doms a = Inr (Some r) \<longrightarrow>
            (\<exists>pre val post. vals = pre @ val # post \<and>
               backtracking_tries cw doms a = pre @ [val] \<and>
               (\<forall>v \<in> set pre. branch_fails cw doms a var v) \<and>
               is_consistent cw (a @ [(var, val)]) = Inr True \<and>
               perform_backtracking cw doms (a @ [(var, val)]) = Inr (Some r)))"
proof -
  have t: "backtracking_tries cw doms a = tried_values cw doms var vals a"
    using inc sel dom by (simp add: backtracking_tries_def)
  have p: "perform_backtracking cw doms a = try_values cw doms var vals a"
    using inc sel dom by (simp add: perform_backtracking.simps)
  show ?thesis
  proof (intro conjI allI impI)
    show "\<exists>rest. vals = backtracking_tries cw doms a @ rest"
      unfolding t by (rule tried_values_prefix)
  next
    fix r assume "perform_backtracking cw doms a = Inr (Some r)"
    then have "try_values cw doms var vals a = Inr (Some r)" using p by simp
    from try_values_first_success[OF this]
    show "\<exists>pre val post. vals = pre @ val # post \<and>
               backtracking_tries cw doms a = pre @ [val] \<and>
               (\<forall>v \<in> set pre. branch_fails cw doms a var v) \<and>
               is_consistent cw (a @ [(var, val)]) = Inr True \<and>
               perform_backtracking cw doms (a @ [(var, val)]) = Inr (Some r)"
      unfolding t .
  qed
qed

section \<open>The count that the docstring of \<open>order_values\<close> describes\<close>

text \<open>
  Following the docstring of \<open>order_values\<close> and the specification, not the body of the
  method: the number of values that the word \<open>val\<close> of \<open>var\<close> eliminates from the domains
  of the unassigned neighbours of \<open>var\<close>, a value being eliminated when it is in the domain
  of the neighbour and does not agree with \<open>val\<close> at the shared cell.
\<close>

definition eliminated_count ::
  "Crossword \<Rightarrow> domains \<Rightarrow> Variable \<Rightarrow> assignment \<Rightarrow> string \<Rightarrow> nat" where
  "eliminated_count cw doms var a val =
     sum_list (map (\<lambda>nb. case overlaps cw (var, nb) of
                           Some (Some (i, j)) \<Rightarrow>
                             length (filter (\<lambda>w. \<not> matches i j val w) (domain_of doms nb))
                         | _ \<Rightarrow> 0)
                   (unassigned a (neighbors cw var)))"

section \<open>Four small crosswords\<close>

text \<open>
  The crossword object for a structure file that is not empty, and the domains on which
  \<open>find_solution\<close> runs the search: those left by node consistency and \<open>apply_ac3\<close> on a
  fresh generator.
\<close>

definition the_crossword :: "string list \<Rightarrow> string list \<Rightarrow> Crossword" where
  "the_crossword contents ws = projr (Crossword_init contents ws)"

definition pruned_domains :: "Crossword \<Rightarrow> domains" where
  "pruned_domains cw =
     (case apply_ac3 cw (ensure_node_consistency (CrosswordGenerator_init cw)) None of
        Inl e \<Rightarrow> []
      | Inr (ok, doms) \<Rightarrow> doms)"

definition cw_cross :: Crossword where
  "cw_cross = the_crossword [''__'', ''#_''] [''BC'', ''AB'', ''CE'', ''CF'']"

definition cw_fail :: Crossword where
  "cw_fail = the_crossword [''__#'', ''_#_'', ''___''] [''ABA'', ''XA'']"

definition cw_tee :: Crossword where
  "cw_tee = the_crossword [''___'', ''_#_'']
              [''ABC'', ''ADC'', ''AEC'', ''AX'', ''CY'', ''CZ'', ''CW'']"

definition cw_order :: Crossword where
  "cw_order = the_crossword [''__'', ''#_''] [''CC'', ''AB'', ''BX'', ''BY'', ''BZ'']"

definition slot :: "nat \<Rightarrow> nat \<Rightarrow> direction \<Rightarrow> nat \<Rightarrow> Variable" where
  "slot i j d n = \<lparr>var_i = i, var_j = j, var_direction = d, var_length = n\<rparr>"

subsection \<open>The crossword \<open>cw_cross\<close>: two crossing slots of length 2\<close>

lemma cw_cross_init:
  "Crossword_init [''__'', ''#_''] [''BC'', ''AB'', ''CE'', ''CF''] = Inr cw_cross"
  by (simp add: cw_cross_def the_crossword_def Crossword_init_def Let_def)

lemma cw_cross_variables: "variables cw_cross = [slot 0 0 ACROSS 2, slot 0 1 DOWN 2]"
  by code_simp

lemma cw_cross_keys:
  "set (variables cw_cross) \<subseteq> set (map fst (CrosswordGenerator_init cw_cross))"
  by (simp add: CrosswordGenerator_init_def comp_def)

lemma cw_cross_node_consistent_domains:
  "ensure_node_consistency (CrosswordGenerator_init cw_cross) =
     [(slot 0 0 ACROSS 2, [''BC'', ''AB'', ''CE'', ''CF'']),
      (slot 0 1 DOWN 2, [''BC'', ''AB'', ''CE'', ''CF''])]"
  by code_simp

lemma cw_cross_ac3:
  "apply_ac3 cw_cross (ensure_node_consistency (CrosswordGenerator_init cw_cross)) None =
     Inr (True, [(slot 0 0 ACROSS 2, [''BC'', ''AB'']),
                 (slot 0 1 DOWN 2, [''BC'', ''CE'', ''CF''])])"
  by code_simp

lemma cw_cross_ac3_empty_worklist:
  "apply_ac3 cw_cross (ensure_node_consistency (CrosswordGenerator_init cw_cross)) (Some []) =
     Inr (True, ensure_node_consistency (CrosswordGenerator_init cw_cross))"
  by code_simp

lemma cw_cross_not_arc_consistent:
  "\<not> arc_consistent cw_cross (ensure_node_consistency (CrosswordGenerator_init cw_cross))"
  by code_simp

lemma cw_cross_order:
  "order_values cw_cross (pruned_domains cw_cross) (slot 0 0 ACROSS 2) [] = Inr [''AB'', ''BC'']"
  by code_simp

lemma cw_cross_counts:
  "order_counts (pruned_domains cw_cross) (unassigned [] (neighbors cw_cross (slot 0 0 ACROSS 2)))
       [''BC'', ''AB''] = Inr [(''BC'', 1), (''AB'', 0)]"
  by code_simp

lemma cw_cross_solution:
  "find_solution cw_cross (CrosswordGenerator_init cw_cross) =
     Inr (Some [(slot 0 0 ACROSS 2, ''BC''), (slot 0 1 DOWN 2, ''CE'')])"
  by code_simp

lemma cw_cross_domain_down:
  "domain_of (pruned_domains cw_cross) (slot 0 1 DOWN 2) = [''BC'', ''CE'', ''CF'']"
  by code_simp

lemma cw_cross_overlap:
  "overlaps cw_cross (slot 0 0 ACROSS 2, slot 0 1 DOWN 2) = Some (Some (1, 0))"
  by code_simp

lemma cw_cross_eliminated_AB:
  "eliminated_count cw_cross (pruned_domains cw_cross) (slot 0 0 ACROSS 2) [] ''AB'' = 2"
  by code_simp

lemma cw_cross_eliminated_BC:
  "eliminated_count cw_cross (pruned_domains cw_cross) (slot 0 0 ACROSS 2) [] ''BC'' = 1"
  by code_simp

subsection \<open>The crossword \<open>cw_fail\<close>: no word fits the slot at (0, 0) across\<close>

lemma cw_fail_init: "Crossword_init [''__#'', ''_#_'', ''___''] [''ABA'', ''XA''] = Inr cw_fail"
  by (simp add: cw_fail_def the_crossword_def Crossword_init_def Let_def)

lemma cw_fail_keys:
  "set (map fst (CrosswordGenerator_init cw_fail)) = set (variables cw_fail)"
  by (simp add: CrosswordGenerator_init_def comp_def)

lemma cw_fail_domains:
  "ensure_node_consistency (CrosswordGenerator_init cw_fail) =
     [(slot 0 0 DOWN 3, [''ABA'']), (slot 0 0 ACROSS 2, [''XA'']),
      (slot 1 2 DOWN 2, [''XA'']), (slot 2 0 ACROSS 3, [''ABA''])]"
  by code_simp

lemma cw_fail_ac3:
  "apply_ac3 cw_fail (ensure_node_consistency (CrosswordGenerator_init cw_fail)) None =
     Inr (False, [(slot 0 0 DOWN 3, [''ABA'']), (slot 0 0 ACROSS 2, []),
                  (slot 1 2 DOWN 2, [''XA'']), (slot 2 0 ACROSS 3, [''ABA''])])"
  by code_simp

lemma cw_fail_revise_changed:
  "revise_domains cw_fail (ensure_node_consistency (CrosswordGenerator_init cw_fail))
     (slot 0 0 ACROSS 2) (slot 0 0 DOWN 3) =
   Inr (True, [(slot 0 0 DOWN 3, [''ABA'']), (slot 0 0 ACROSS 2, []),
               (slot 1 2 DOWN 2, [''XA'']), (slot 2 0 ACROSS 3, [''ABA''])])"
  by code_simp

lemma cw_fail_revise_unchanged:
  "revise_domains cw_fail (ensure_node_consistency (CrosswordGenerator_init cw_fail))
     (slot 2 0 ACROSS 3) (slot 1 2 DOWN 2) =
   Inr (False, ensure_node_consistency (CrosswordGenerator_init cw_fail))"
  by code_simp

lemma cw_fail_tries: "find_solution_tries cw_fail (CrosswordGenerator_init cw_fail) = [''ABA'']"
  by code_simp

subsection \<open>The crossword \<open>cw_tee\<close>: one slot with two neighbours\<close>

lemma cw_tee_init:
  "Crossword_init [''___'', ''_#_''] [''ABC'', ''ADC'', ''AEC'', ''AX'', ''CY'', ''CZ'', ''CW'']
     = Inr cw_tee"
  by (simp add: cw_tee_def the_crossword_def Crossword_init_def Let_def)

lemma cw_tee_unassigned:
  "unassigned [] (variables cw_tee) = [slot 0 0 DOWN 2, slot 0 0 ACROSS 3, slot 0 2 DOWN 2]"
  by code_simp

lemma cw_tee_select:
  "select_variable cw_tee (pruned_domains cw_tee) [] = Inr (Some (slot 0 0 ACROSS 3))"
  by code_simp

lemma cw_tee_domain_across:
  "domain_of (pruned_domains cw_tee) (slot 0 0 ACROSS 3) = [''ABC'', ''ADC'', ''AEC'']"
  by code_simp

lemma cw_tee_domain_down:
  "domain_of (pruned_domains cw_tee) (slot 0 0 DOWN 2) = [''AX'']"
  by code_simp

lemma cw_tee_degree_across: "length (neighbors cw_tee (slot 0 0 ACROSS 3)) = 2"
  by code_simp

lemma cw_tee_degree_down: "length (neighbors cw_tee (slot 0 0 DOWN 2)) = 1"
  by code_simp

subsection \<open>The crossword \<open>cw_order\<close>: the first word of the domain is the most constraining\<close>

lemma cw_order_init:
  "Crossword_init [''__'', ''#_''] [''CC'', ''AB'', ''BX'', ''BY'', ''BZ''] = Inr cw_order"
  by (simp add: cw_order_def the_crossword_def Crossword_init_def Let_def)

lemma cw_order_domains:
  "pruned_domains cw_order =
     [(slot 0 0 ACROSS 2, [''CC'', ''AB'']),
      (slot 0 1 DOWN 2, [''CC'', ''BX'', ''BY'', ''BZ''])]"
  by code_simp

lemma cw_order_overlap:
  "overlaps cw_order (slot 0 0 ACROSS 2, slot 0 1 DOWN 2) = Some (Some (1, 0))"
  by code_simp

lemma cw_order_select:
  "select_variable cw_order (pruned_domains cw_order) [] = Inr (Some (slot 0 0 ACROSS 2))"
  by code_simp

lemma cw_order_tries:
  "backtracking_tries cw_order (pruned_domains cw_order) [] = [''CC'', ''AB'']"
  by code_simp

lemma cw_order_eliminated_CC:
  "eliminated_count cw_order (pruned_domains cw_order) (slot 0 0 ACROSS 2) [] ''CC'' = 3"
  by code_simp

lemma cw_order_eliminated_AB:
  "eliminated_count cw_order (pruned_domains cw_order) (slot 0 0 ACROSS 2) [] ''AB'' = 1"
  by code_simp

lemma cw_order_values:
  "order_values cw_order (pruned_domains cw_order) (slot 0 0 ACROSS 2) [] = Inr [''AB'', ''CC'']"
  by code_simp

lemma cw_order_search:
  "perform_backtracking cw_order (pruned_domains cw_order) [] =
     Inr (Some [(slot 0 0 ACROSS 2, ''AB''), (slot 0 1 DOWN 2, ''BX'')])"
  by code_simp

lemma cw_order_solution:
  "find_solution cw_order (CrosswordGenerator_init cw_order) =
     Inr (Some [(slot 0 0 ACROSS 2, ''AB''), (slot 0 1 DOWN 2, ''BX'')])"
  by code_simp

section \<open>The claims about the solver, at the four crosswords\<close>

theorem find_solution_valid_witness:
  "Crossword_init [''__'', ''#_''] [''BC'', ''AB'', ''CE'', ''CF''] = Inr cw_cross \<and>
   find_solution cw_cross (CrosswordGenerator_init cw_cross) =
     Inr (Some [(slot 0 0 ACROSS 2, ''BC''), (slot 0 1 DOWN 2, ''CE'')]) \<and>
   valid_solution cw_cross [(slot 0 0 ACROSS 2, ''BC''), (slot 0 1 DOWN 2, ''CE'')]"
  using find_solution_valid[OF cw_cross_init cw_cross_solution] cw_cross_init cw_cross_solution
  by simp

text \<open>
  Claim C2 says that a failure of \<open>apply_ac3\<close> makes \<open>find_solution\<close> report no solution at
  once, without a search. On the crossword \<open>cw_fail\<close> arc consistency empties the domain
  of the slot at (0, 0) across and returns \<open>False\<close>; \<open>find_solution\<close> then still enters the
  search, which (with the slots iterated in the order of \<open>variables cw_fail\<close>) selects the
  slot at (2, 0) across and assigns it the word \<open>ABA\<close> before it gives up.
\<close>

theorem find_solution_skips_search_counterexample:
  "apply_ac3 cw_fail (ensure_node_consistency (CrosswordGenerator_init cw_fail)) None =
     Inr (False, [(slot 0 0 DOWN 3, [''ABA'']), (slot 0 0 ACROSS 2, []),
                  (slot 1 2 DOWN 2, [''XA'']), (slot 2 0 ACROSS 3, [''ABA''])]) \<and>
   find_solution_tries cw_fail (CrosswordGenerator_init cw_fail) = [''ABA'']"
  using cw_fail_ac3 cw_fail_tries by simp

theorem find_solution_after_ac3_witness:
  "Crossword_init [''__#'', ''_#_'', ''___''] [''ABA'', ''XA''] = Inr cw_fail \<and>
   set (map fst (CrosswordGenerator_init cw_fail)) = set (variables cw_fail) \<and>
   apply_ac3 cw_fail (ensure_node_consistency (CrosswordGenerator_init cw_fail)) None =
     Inr (False, [(slot 0 0 DOWN 3, [''ABA'']), (slot 0 0 ACROSS 2, []),
                  (slot 1 2 DOWN 2, [''XA'']), (slot 2 0 ACROSS 3, [''ABA''])]) \<and>
   find_solution cw_fail (CrosswordGenerator_init cw_fail) = Inr None"
proof -
  from find_solution_after_ac3[OF cw_fail_init cw_fail_keys cw_fail_ac3]
  have "find_solution cw_fail (CrosswordGenerator_init cw_fail) = Inr None" by blast
  then show ?thesis using cw_fail_init cw_fail_keys cw_fail_ac3 by blast
qed

text \<open>
  Claim C6 says that the domains are arc consistent whenever \<open>apply_ac3\<close> returns \<open>True\<close>.
  Called with an empty worklist, \<open>apply_ac3\<close> returns \<open>True\<close> at once and leaves the domains
  as they are. On the crossword \<open>cw_cross\<close> the word \<open>CE\<close> of the slot at (0, 0) across has
  no partner in the domain of the slot at (0, 1) down, whose words would have to start
  with \<open>E\<close>.
\<close>

theorem apply_ac3_given_worklist_counterexample:
  "apply_ac3 cw_cross (ensure_node_consistency (CrosswordGenerator_init cw_cross)) (Some []) =
     Inr (True, ensure_node_consistency (CrosswordGenerator_init cw_cross)) \<and>
   ensure_node_consistency (CrosswordGenerator_init cw_cross) =
     [(slot 0 0 ACROSS 2, [''BC'', ''AB'', ''CE'', ''CF'']),
      (slot 0 1 DOWN 2, [''BC'', ''AB'', ''CE'', ''CF''])] \<and>
   \<not> arc_consistent cw_cross (ensure_node_consistency (CrosswordGenerator_init cw_cross))"
  by (intro conjI) (fact cw_cross_ac3_empty_worklist cw_cross_node_consistent_domains
                          cw_cross_not_arc_consistent)+

theorem apply_ac3_arc_consistent_witness:
  "set (variables cw_cross) \<subseteq> set (map fst (ensure_node_consistency (CrosswordGenerator_init cw_cross))) \<and>
   apply_ac3 cw_cross (ensure_node_consistency (CrosswordGenerator_init cw_cross)) None =
     Inr (True, [(slot 0 0 ACROSS 2, [''BC'', ''AB'']),
                 (slot 0 1 DOWN 2, [''BC'', ''CE'', ''CF''])]) \<and>
   arc_consistent cw_cross [(slot 0 0 ACROSS 2, [''BC'', ''AB'']),
                            (slot 0 1 DOWN 2, [''BC'', ''CE'', ''CF''])]"
proof -
  have k: "set (variables cw_cross)
             \<subseteq> set (map fst (ensure_node_consistency (CrosswordGenerator_init cw_cross)))"
    using cw_cross_keys by (simp only: keys_ensure_node_consistency)
  from apply_ac3_arc_consistent[OF cw_cross_init k cw_cross_ac3] k cw_cross_ac3
  show ?thesis by simp
qed

theorem apply_ac3_terminates_witness:
  "domains_size [(slot 0 0 DOWN 3, [''ABA'']), (slot 0 0 ACROSS 2, []),
                 (slot 1 2 DOWN 2, [''XA'']), (slot 2 0 ACROSS 3, [''ABA''])]
     < domains_size (ensure_node_consistency (CrosswordGenerator_init cw_fail)) \<and>
   ac3_body cw_fail (ensure_node_consistency (CrosswordGenerator_init cw_fail))
       [(slot 2 0 ACROSS 3, slot 1 2 DOWN 2)] =
     Inr (ensure_node_consistency (CrosswordGenerator_init cw_fail), []) \<and>
   apply_ac3 cw_fail (ensure_node_consistency (CrosswordGenerator_init cw_fail)) None =
     Inr (False, [(slot 0 0 DOWN 3, [''ABA'']), (slot 0 0 ACROSS 2, []),
                  (slot 1 2 DOWN 2, [''XA'']), (slot 2 0 ACROSS 3, [''ABA''])]) \<and>
   (\<exists>x ws. map_of (ensure_node_consistency (CrosswordGenerator_init cw_fail)) x = Some ws \<and>
           ws \<noteq> [] \<and>
           map_of [(slot 0 0 DOWN 3, [''ABA'']), (slot 0 0 ACROSS 2, []),
                   (slot 1 2 DOWN 2, [''XA'']), (slot 2 0 ACROSS 3, [''ABA''])] x = Some [])"
proof -
  note t = apply_ac3_terminates[of cw_fail]
  from t have shrink: "revise_domains cw_fail doms x y = Inr (revised, doms') \<Longrightarrow>
      (revised \<and> domains_size doms' < domains_size doms) \<or> (\<not> revised \<and> doms' = doms)"
    for doms x y revised doms' by blast
  from t have same: "revise_domains cw_fail doms x y = Inr (False, doms') \<Longrightarrow>
      ac3_body cw_fail doms ((x, y) # rest) = Inr (doms, rest)"
    for doms x y rest doms' by blast
  from t have ok: "apply_ac3 cw_fail doms arcs = Inr (ok, doms') \<Longrightarrow>
      ok \<longleftrightarrow> (\<forall>x ws. map_of doms x = Some ws \<and> ws \<noteq> [] \<longrightarrow> map_of doms' x \<noteq> Some [])"
    for doms arcs ok doms' by blast
  have 1: "domains_size [(slot 0 0 DOWN 3, [''ABA'']), (slot 0 0 ACROSS 2, []),
                 (slot 1 2 DOWN 2, [''XA'']), (slot 2 0 ACROSS 3, [''ABA''])]
     < domains_size (ensure_node_consistency (CrosswordGenerator_init cw_fail))"
    using shrink[OF cw_fail_revise_changed] by simp
  have 2: "ac3_body cw_fail (ensure_node_consistency (CrosswordGenerator_init cw_fail))
       [(slot 2 0 ACROSS 3, slot 1 2 DOWN 2)] =
     Inr (ensure_node_consistency (CrosswordGenerator_init cw_fail), [])"
    by (rule same[OF cw_fail_revise_unchanged])
  have 3: "\<exists>x ws. map_of (ensure_node_consistency (CrosswordGenerator_init cw_fail)) x = Some ws \<and>
           ws \<noteq> [] \<and>
           map_of [(slot 0 0 DOWN 3, [''ABA'']), (slot 0 0 ACROSS 2, []),
                   (slot 1 2 DOWN 2, [''XA'']), (slot 2 0 ACROSS 3, [''ABA''])] x = Some []"
    using ok[OF cw_fail_ac3] by blast
  show ?thesis using 1 2 3 cw_fail_ac3 by blast
qed

theorem apply_ac3_no_error_witness:
  "set (variables cw_cross) \<subseteq> set (map fst (CrosswordGenerator_init cw_cross)) \<and>
   apply_ac3 cw_cross (ensure_node_consistency (CrosswordGenerator_init cw_cross)) None =
     Inr (True, [(slot 0 0 ACROSS 2, [''BC'', ''AB'']),
                 (slot 0 1 DOWN 2, [''BC'', ''CE'', ''CF''])])"
proof -
  from apply_ac3_no_error[OF cw_cross_init cw_cross_keys] obtain ok doms' where
    "apply_ac3 cw_cross (ensure_node_consistency (CrosswordGenerator_init cw_cross)) None
       = Inr (ok, doms')" by blast
  then have "(ok, doms') = (True, [(slot 0 0 ACROSS 2, [''BC'', ''AB'']),
                 (slot 0 1 DOWN 2, [''BC'', ''CE'', ''CF''])])"
    using cw_cross_ac3 by simp
  then show ?thesis using cw_cross_keys cw_cross_ac3 by simp
qed

section \<open>The heuristics of the search\<close>

text \<open>
  Claim C3 (the code departs from it). The loop of \<open>perform_backtracking\<close> runs over
  \<open>self.domains[var]\<close> as it is iterated; \<open>order_values\<close>, which the class defines to put
  the least constraining value first, is never called. On the crossword \<open>cw_order\<close>, with
  the domain of the slot at (0, 0) across iterated \<open>CC\<close>, \<open>AB\<close>, the search selects that
  slot and tries \<open>CC\<close> first and \<open>AB\<close> second. \<open>CC\<close> eliminates three values of the
  neighbour (\<open>BX\<close>, \<open>BY\<close>, \<open>BZ\<close>) and \<open>AB\<close> one (\<open>CC\<close>), and \<open>order_values\<close> itself
  returns \<open>AB\<close> before \<open>CC\<close>: by either count the order tried is descending. The
  assignment returned is the one below \<open>AB\<close>, found only after the branch of \<open>CC\<close> has
  been searched.
\<close>

theorem backtracking_ignores_value_order:
  "find_solution cw_order (CrosswordGenerator_init cw_order) =
     perform_backtracking cw_order (pruned_domains cw_order) [] \<and>
   select_variable cw_order (pruned_domains cw_order) [] = Inr (Some (slot 0 0 ACROSS 2)) \<and>
   backtracking_tries cw_order (pruned_domains cw_order) [] = [''CC'', ''AB''] \<and>
   eliminated_count cw_order (pruned_domains cw_order) (slot 0 0 ACROSS 2) [] ''CC'' = 3 \<and>
   eliminated_count cw_order (pruned_domains cw_order) (slot 0 0 ACROSS 2) [] ''AB'' = 1 \<and>
   order_values cw_order (pruned_domains cw_order) (slot 0 0 ACROSS 2) [] = Inr [''AB'', ''CC''] \<and>
   perform_backtracking cw_order (pruned_domains cw_order) [] =
     Inr (Some [(slot 0 0 ACROSS 2, ''AB''), (slot 0 1 DOWN 2, ''BX'')])"
proof -
  have "find_solution cw_order (CrosswordGenerator_init cw_order) =
     perform_backtracking cw_order (pruned_domains cw_order) []"
    using cw_order_solution cw_order_search by simp
  then show ?thesis
    using cw_order_select cw_order_tries cw_order_eliminated_CC cw_order_eliminated_AB
      cw_order_values cw_order_search
    by (intro conjI) assumption+
qed

text \<open>
  Claim C4 (the code departs from it). The docstring of \<open>select_variable\<close> asks for a slot
  with the fewest remaining words, the degree deciding only between slots with equally
  many. The loop replaces \<open>best\<close> whenever the next slot has more neighbours, whatever the
  sizes of the two domains. On the crossword \<open>cw_tee\<close>, with nothing assigned and the
  unassigned slots iterated in the order of \<open>variables cw_tee\<close>, it returns the slot at
  (0, 0) across, which has three words left, although the slot at (0, 0) down is
  unassigned and has one.
\<close>

theorem select_variable_prefers_degree:
  "select_variable cw_tee (pruned_domains cw_tee) [] = Inr (Some (slot 0 0 ACROSS 3)) \<and>
   unassigned [] (variables cw_tee) = [slot 0 0 DOWN 2, slot 0 0 ACROSS 3, slot 0 2 DOWN 2] \<and>
   domain_of (pruned_domains cw_tee) (slot 0 0 ACROSS 3) = [''ABC'', ''ADC'', ''AEC''] \<and>
   domain_of (pruned_domains cw_tee) (slot 0 0 DOWN 2) = [''AX''] \<and>
   length (neighbors cw_tee (slot 0 0 ACROSS 3)) = 2 \<and>
   length (neighbors cw_tee (slot 0 0 DOWN 2)) = 1"
  by (intro conjI) (fact cw_tee_select cw_tee_unassigned cw_tee_domain_across
                          cw_tee_domain_down cw_tee_degree_across cw_tee_degree_down)+

text \<open>
  Claim C5 (the code departs from it). \<open>order_values\<close> does not count the values that a
  word eliminates: for every unassigned neighbour it adds one when the word itself is in
  the domain of the neighbour. On the crossword \<open>cw_cross\<close>, for the slot at (0, 0)
  across, the word \<open>AB\<close> eliminates two values of the neighbour (\<open>CE\<close> and \<open>CF\<close>) and the
  word \<open>BC\<close> eliminates one (\<open>BC\<close>), but \<open>order_values\<close> counts 0 for \<open>AB\<close> and 1 for \<open>BC\<close>
  and returns \<open>AB\<close> first. The domains are only read.
\<close>

theorem order_values_counts_membership:
  "order_values cw_cross (pruned_domains cw_cross) (slot 0 0 ACROSS 2) [] = Inr [''AB'', ''BC''] \<and>
   order_counts (pruned_domains cw_cross) (unassigned [] (neighbors cw_cross (slot 0 0 ACROSS 2)))
       [''BC'', ''AB''] = Inr [(''BC'', 1), (''AB'', 0)] \<and>
   domain_of (pruned_domains cw_cross) (slot 0 1 DOWN 2) = [''BC'', ''CE'', ''CF''] \<and>
   overlaps cw_cross (slot 0 0 ACROSS 2, slot 0 1 DOWN 2) = Some (Some (1, 0)) \<and>
   eliminated_count cw_cross (pruned_domains cw_cross) (slot 0 0 ACROSS 2) [] ''AB'' = 2 \<and>
   eliminated_count cw_cross (pruned_domains cw_cross) (slot 0 0 ACROSS 2) [] ''BC'' = 1"
  by (intro conjI) (fact cw_cross_order cw_cross_counts cw_cross_domain_down cw_cross_overlap
                          cw_cross_eliminated_AB cw_cross_eliminated_BC)+

end
